theory Spec2Isabelle
  imports Main "HOL-Library.AList" "HOL-Library.Sublist"
begin

section \<open>Text primitives\<close>

text \<open>
  A line is a \<^typ>\<open>string\<close>; a file is the list of its lines as \<^verbatim>\<open>readlines()\<close>
  returns them (each line keeps its terminating newline). A \<^typ>\<open>char\<close> is a
  character of the decoded text, a code point below 256. The whitespace class is
  that of \<^verbatim>\<open>str.strip()\<close> and of the pattern class \<^verbatim>\<open>\s\<close> on these code points,
  the word class that of \<^verbatim>\<open>\w\<close> and \<^verbatim>\<open>\b\<close>: both are Unicode-aware for
  \<^verbatim>\<open>str\<close> patterns, so next to the ASCII characters they hold the next-line
  and no-break space controls, and the letters and numerals of the Latin-1
  supplement. Text with code points from 256 on is outside this development.
\<close>

definition is_space :: "char \<Rightarrow> bool" where
  "is_space c = (let n = (of_char c :: nat) in
     (9 \<le> n \<and> n \<le> 13) \<or> (28 \<le> n \<and> n \<le> 32) \<or> n = 133 \<or> n = 160)"

definition is_word :: "char \<Rightarrow> bool" where
  "is_word c = (let n = (of_char c :: nat) in
     (48 \<le> n \<and> n \<le> 57) \<or> (65 \<le> n \<and> n \<le> 90) \<or> n = 95 \<or> (97 \<le> n \<and> n \<le> 122)
     \<or> n = 170 \<or> n = 178 \<or> n = 179 \<or> n = 181 \<or> n = 185 \<or> n = 186
     \<or> (188 \<le> n \<and> n \<le> 190) \<or> (192 \<le> n \<and> n \<le> 214) \<or> (216 \<le> n \<and> n \<le> 246)
     \<or> (248 \<le> n \<and> n \<le> 255))"

abbreviation NL :: char where "NL \<equiv> CHR 0x0A"
abbreviation DQ :: char where "DQ \<equiv> CHR 0x22"
abbreviation SQ :: char where "SQ \<equiv> CHR 0x27"
abbreviation BSL :: char where "BSL \<equiv> CHR 0x5C"

text \<open>\<^verbatim>\<open>s.strip()\<close>, \<^verbatim>\<open>s.lstrip("/")\<close>, \<^verbatim>\<open>needle in s\<close>, \<^verbatim>\<open>"\n".join(xs)\<close>
  and the slice \<^verbatim>\<open>xs[a:b]\<close>.\<close>

definition py_strip :: "string \<Rightarrow> string" where
  "py_strip s = rev (dropWhile is_space (rev (dropWhile is_space s)))"

definition lstrip_slash :: "string \<Rightarrow> string" where
  "lstrip_slash s = dropWhile (\<lambda>c. c = CHR ''/'') s"

fun is_substr :: "string \<Rightarrow> string \<Rightarrow> bool" where
  "is_substr needle [] = (needle = [])"
| "is_substr needle (c # cs) = (prefix needle (c # cs) \<or> is_substr needle cs)"

fun join_nl :: "string list \<Rightarrow> string" where
  "join_nl [] = []"
| "join_nl [x] = x"
| "join_nl (x # y # zs) = x @ [NL] @ join_nl (y # zs)"

definition slice :: "'a list \<Rightarrow> nat \<Rightarrow> nat \<Rightarrow> 'a list" where
  "slice xs a b = take (b - a) (drop a xs)"

section \<open>Regular expressions\<close>

text \<open>
  The patterns of the script are kept as syntax trees and run by a backtracking
  matcher with the priorities of Python's \<^verbatim>\<open>re\<close>: the left alternative first,
  a star greedy, the first success returned. The matcher is written in
  continuation style: \<open>m r st k\<close> runs \<open>r\<close> from \<open>st\<close> and hands each state it can
  reach to \<open>k\<close>, in priority order, until \<open>k\<close> accepts one.
\<close>

datatype citem = CChar char | CRange char char | CSpace | CWord

fun citem_has :: "citem \<Rightarrow> char \<Rightarrow> bool" where
  "citem_has (CChar a) c = (c = a)"
| "citem_has (CRange a b) c = ((of_char a :: nat) \<le> of_char c \<and> (of_char c :: nat) \<le> of_char b)"
| "citem_has CSpace c = is_space c"
| "citem_has CWord c = is_word c"

datatype regex =
    Lit string
  | Cls "citem list"
  | NCls "citem list"
  | Dot
  | Seq regex regex
  | Alt regex regex
  | Star regex
  | Group nat regex
  | Bol
  | Eol
  | WordB

record mstate =
  prev :: "char option"
  rest :: string
  groups :: "(nat \<times> string) list"

definition advance :: "nat \<Rightarrow> mstate \<Rightarrow> mstate" where
  "advance n st =
     st\<lparr>prev := (if n = 0 then prev st else Some (rest st ! (n - 1))), rest := drop n (rest st)\<rparr>"

definition at_word_boundary :: "mstate \<Rightarrow> bool" where
  "at_word_boundary st =
     ((case prev st of None \<Rightarrow> False | Some c \<Rightarrow> is_word c) \<noteq>
      (case rest st of [] \<Rightarrow> False | c # _ \<Rightarrow> is_word c))"

text \<open>A star tries one more round of its body first; a round that consumes nothing
  is not repeated. The fuel is the length of the remaining input, which such
  rounds cannot exhaust.\<close>

fun star_m ::
  "nat \<Rightarrow> (mstate \<Rightarrow> (mstate \<Rightarrow> 'a option) \<Rightarrow> 'a option) \<Rightarrow> mstate \<Rightarrow> (mstate \<Rightarrow> 'a option) \<Rightarrow> 'a option"
where
  "star_m 0 f st k = k st"
| "star_m (Suc n) f st k =
     (case f st (\<lambda>st'. if length (rest st') < length (rest st) then star_m n f st' k else None) of
        Some x \<Rightarrow> Some x
      | None \<Rightarrow> k st)"

primrec m :: "regex \<Rightarrow> mstate \<Rightarrow> (mstate \<Rightarrow> 'a option) \<Rightarrow> 'a option" where
  "m (Lit s) st k = (if prefix s (rest st) then k (advance (length s) st) else None)"
| "m (Cls cs) st k =
     (case rest st of [] \<Rightarrow> None
      | c # _ \<Rightarrow> if list_ex (\<lambda>i. citem_has i c) cs then k (advance 1 st) else None)"
| "m (NCls cs) st k =
     (case rest st of [] \<Rightarrow> None
      | c # _ \<Rightarrow> if list_ex (\<lambda>i. citem_has i c) cs then None else k (advance 1 st))"
| "m Dot st k =
     (case rest st of [] \<Rightarrow> None | c # _ \<Rightarrow> if c = NL then None else k (advance 1 st))"
| "m (Seq r1 r2) st k = m r1 st (\<lambda>st'. m r2 st' k)"
| "m (Alt r1 r2) st k = (case m r1 st k of Some x \<Rightarrow> Some x | None \<Rightarrow> m r2 st k)"
| "m (Star r) st k = star_m (length (rest st)) (m r) st k"
| "m (Group n r) st k =
     m r st (\<lambda>st'. k (st'\<lparr>groups :=
        (n, take (length (rest st) - length (rest st')) (rest st)) # groups st'\<rparr>))"
| "m Bol st k = (if prev st = None then k st else None)"
| "m Eol st k = (if rest st = [] \<or> rest st = [NL] then k st else None)"
| "m WordB st k = (if at_word_boundary st then k st else None)"

text \<open>\<^verbatim>\<open>re.match\<close> anchors at the start of the string; \<^verbatim>\<open>re.search\<close> tries every
  start position from the left.\<close>

definition re_match :: "regex \<Rightarrow> string \<Rightarrow> mstate option" where
  "re_match r s = m r \<lparr>prev = None, rest = s, groups = []\<rparr> Some"

fun search_from :: "regex \<Rightarrow> char option \<Rightarrow> string \<Rightarrow> mstate option" where
  "search_from r p [] = m r \<lparr>prev = p, rest = [], groups = []\<rparr> Some"
| "search_from r p (c # cs) =
     (case m r \<lparr>prev = p, rest = c # cs, groups = []\<rparr> Some of
        Some x \<Rightarrow> Some x
      | None \<Rightarrow> search_from r (Some c) cs)"

definition re_search :: "regex \<Rightarrow> string \<Rightarrow> mstate option" where
  "re_search r s = search_from r None s"

definition matches :: "regex \<Rightarrow> string \<Rightarrow> bool" where
  "matches r s = (re_match r s \<noteq> None)"

definition found_in :: "regex \<Rightarrow> string \<Rightarrow> bool" where
  "found_in r s = (re_search r s \<noteq> None)"

text \<open>\<^verbatim>\<open>m.group(n)\<close> of a group that took part in the match.\<close>

definition grp :: "mstate \<Rightarrow> nat \<Rightarrow> string" where
  "grp ms n = (case map_of (groups ms) n of Some s \<Rightarrow> s | None \<Rightarrow> [])"

fun seqs :: "regex list \<Rightarrow> regex" where
  "seqs [] = Lit []"
| "seqs [r] = r"
| "seqs (r # rs) = Seq r (seqs rs)"

fun alts :: "regex list \<Rightarrow> regex" where
  "alts [] = NCls [CRange (CHR 0x00) (CHR 0xFF)]"
| "alts [r] = r"
| "alts (r # rs) = Alt r (alts rs)"

definition Plus :: "regex \<Rightarrow> regex" where
  "Plus r = Seq r (Star r)"

definition Opt :: "regex \<Rightarrow> regex" where
  "Opt r = Alt r (Lit [])"

abbreviation Sp :: regex where "Sp \<equiv> Cls [CSpace]"
abbreviation Wd :: regex where "Wd \<equiv> Cls [CWord]"
abbreviation Ident :: regex where
  "Ident \<equiv> Seq (Cls [CRange (CHR ''a'') (CHR ''z''), CRange (CHR ''A'') (CHR ''Z''), CChar (CHR ''_'')])
               (Star Wd)"

section \<open>Configuration\<close>

definition GUI_INCLUDE_PATTERNS :: "regex list" where
  "GUI_INCLUDE_PATTERNS =
    [Lit (DQ # ''bauhaus/bauhaus.h'' @ [DQ]),
     seqs [Lit (DQ # ''dtgtk/''), Star (NCls [CChar DQ]), Lit [DQ]],
     seqs [Lit (DQ # ''gui/''), Star (NCls [CChar DQ]), Lit [DQ]],
     Lit ''<gtk/gtk.h>'',
     Lit (DQ # ''develop/imageop_gui.h'' @ [DQ]),
     seqs [Cls [CChar (CHR ''<''), CChar DQ],
           Star (NCls [CChar DQ, CChar (CHR ''<''), CChar (CHR ''>'')]),
           Cls [CChar (CHR ''g''), CChar (CHR ''G'')],
           Cls [CChar (CHR ''u''), CChar (CHR ''U'')],
           Cls [CChar (CHR ''i''), CChar (CHR ''I'')],
           Star (NCls [CChar DQ, CChar (CHR ''<''), CChar (CHR ''>'')]),
           Cls [CChar (CHR ''>''), CChar DQ]]]"

definition GUI_FUNCTION_NAMES :: "string set" where
  "GUI_FUNCTION_NAMES =
    {''gui_init'', ''gui_cleanup'', ''gui_update'', ''gui_changed'', ''gui_reset'', ''gui_focus'',
     ''color_picker_apply'', ''mouse_moved'', ''mouse_pressed'', ''mouse_released'',
     ''mouse_scrolled'', ''mouse_leave'', ''mouse_actions''}"

definition GUI_FUNCTION_PREFIXES :: "string list" where
  "GUI_FUNCTION_PREFIXES = [''gui_'']"

definition KEEP_FUNCTIONS :: "string set" where
  "KEEP_FUNCTIONS =
    {''process'', ''process_cl'', ''init'', ''cleanup'', ''commit_params'', ''init_pipe'',
     ''cleanup_pipe'', ''init_global'', ''cleanup_global'', ''modify_roi_in'', ''modify_roi_out'',
     ''distort_transform'', ''distort_backtransform'', ''distort_mask'', ''name'', ''aliases'',
     ''description'', ''default_group'', ''flags'', ''default_colorspace'', ''input_colorspace'',
     ''output_colorspace'', ''blend_colorspace'', ''legacy_params'', ''init_presets'',
     ''reload_defaults'', ''tiling_callback''}"

definition GUI_TOKENS :: "string list" where
  "GUI_TOKENS =
    [''_gui_data_t'', ''GtkWidget'', ''GtkStack'', ''GtkLabel'', ''GtkToggleButton'',
     ''GtkDrawingArea'', ''GtkNotebook'', ''GtkAllocation'', ''GtkStyleContext'',
     ''GtkColorButton'', ''GtkBin'', ''GTK_WIDGET'', ''GTK_LABEL'', ''GTK_STACK'', ''GTK_BIN'',
     ''GTK_BUTTON'', ''GTK_IS_GESTURE'', ''GTK_TOGGLE_BUTTON'', ''GTK_DRAWING_AREA'',
     ''gtk_widget_'', ''gtk_label_'', ''gtk_box_'', ''gtk_stack_'', ''gtk_toggle_'',
     ''gtk_button_'', ''gtk_drawing_area_'', ''gtk_notebook_'', ''dt_bauhaus_'',
     ''darktable.gui'', ''darktable.bauhaus'', ''dt_iop_gui_'', ''IOP_GUI_ALLOC'',
     ''g_signal_connect'', ''g_idle_add'', ''g_idle_remove'', ''DT_PIXEL_APPLY_DPI'',
     ''DT_BAUHAUS_'', ''PANGO_ELLIPSIZE'', ''PangoRectangle'', ''pango_'', ''cairo_set_source'',
     ''cairo_rectangle'', ''cairo_fill'', ''cairo_stroke'', ''cairo_destroy'', ''cairo_create'',
     ''cairo_paint'', ''cairo_set_line'', ''cairo_surface_'', ''dt_cairo_image_surface'',
     ''dt_action_widget_toast'', ''dt_shortcut_register'', ''dt_dev_add_history_item'',
     ''dt_color_picker_new'', ''dt_iop_color_picker_reset'', ''dt_gui_update_collapsible'',
     ''dt_gui_new_collapsible'', ''dt_gui_box_add'', ''dt_gui_hbox'', ''dt_gui_vbox'',
     ''dt_gui_expand'', ''dt_ui_label_new'', ''dt_ui_section_label_new'']"

section \<open>Brace-matching helpers\<close>

text \<open>The inner loops of \<^verbatim>\<open>_strip_strings_and_chars\<close>: after an opening quote \<open>q\<close>,
  skip to the character after the closing quote; a backslash skips the character
  after it.\<close>

fun skip_literal :: "char \<Rightarrow> string \<Rightarrow> string" where
  "skip_literal q [] = []"
| "skip_literal q (c # cs) =
     (if c = BSL then skip_literal q (drop 1 cs)
      else if c = q then cs
      else skip_literal q cs)"

lemma length_skip_literal: "length (skip_literal q cs) \<le> length cs"
  by (induction q cs rule: skip_literal.induct) (auto simp: le_SucI)

function strip_strings_and_chars :: "string \<Rightarrow> string" where
  "strip_strings_and_chars [] = []"
| "strip_strings_and_chars (ch # cs) =
     (if ch = DQ then strip_strings_and_chars (skip_literal DQ cs)
      else if ch = SQ then strip_strings_and_chars (skip_literal SQ cs)
      else ch # strip_strings_and_chars cs)"
  by pat_completeness auto
termination
  by (relation "measure length") (auto simp: length_skip_literal le_imp_less_Suc)

text \<open>\<^verbatim>\<open>stripped[:stripped.find("//")]\<close> when the line has a \<^verbatim>\<open>//\<close>, else the line.\<close>

fun cut_line_comment :: "string \<Rightarrow> string" where
  "cut_line_comment [] = []"
| "cut_line_comment (c # cs) =
     (if prefix ''//'' (c # cs) then [] else c # cut_line_comment cs)"

text \<open>The character loop of \<^verbatim>\<open>find_brace_block_end\<close> over one line: either the
  closing brace is on this line, or the depth and the flag after the line.\<close>

datatype scan_result = Closed | Scanning int bool

fun scan_braces :: "string \<Rightarrow> int \<Rightarrow> bool \<Rightarrow> scan_result" where
  "scan_braces [] depth found_open = Scanning depth found_open"
| "scan_braces (ch # cs) depth found_open =
     (if ch = CHR ''{'' then scan_braces cs (depth + 1) True
      else if ch = CHR ''}'' then
        (if found_open \<and> depth - 1 = 0 then Closed else scan_braces cs (depth - 1) found_open)
      else scan_braces cs depth found_open)"

fun brace_loop :: "string list \<Rightarrow> nat \<Rightarrow> int \<Rightarrow> bool \<Rightarrow> nat option" where
  "brace_loop [] i depth found_open = None"
| "brace_loop (l # ls) i depth found_open =
     (case scan_braces (cut_line_comment (strip_strings_and_chars l)) depth found_open of
        Closed \<Rightarrow> Some i
      | Scanning depth' found_open' \<Rightarrow> brace_loop ls (i + 1) depth' found_open')"

definition find_brace_block_end :: "string list \<Rightarrow> nat \<Rightarrow> nat option" where
  "find_brace_block_end lines start_idx = brace_loop (drop start_idx lines) start_idx 0 False"

section \<open>Line classifiers\<close>

definition is_gui_include :: "string \<Rightarrow> bool" where
  "is_gui_include line =
     (let stripped = py_strip line in
      if \<not> prefix ''#include'' stripped then False
      else list_ex (\<lambda>pattern. found_in pattern stripped) GUI_INCLUDE_PATTERNS)"

definition GUI_DATA_STRUCT_RE :: regex where
  "GUI_DATA_STRUCT_RE =
     seqs [WordB, Lit ''typedef'', Plus Sp, Lit ''struct'', Plus Sp, Lit ''dt_iop_'', Plus Wd,
           Lit ''_gui_data_t'', WordB]"

definition is_gui_data_struct_start :: "string \<Rightarrow> bool" where
  "is_gui_data_struct_start line = found_in GUI_DATA_STRUCT_RE line"

section \<open>Function detection\<close>

text \<open>Groups of \<^verbatim>\<open>FUNC_DEF_RE\<close>: 1 is \<^verbatim>\<open>qualifiers\<close>, 2 is \<^verbatim>\<open>return_type\<close>,
  3 is \<^verbatim>\<open>name\<close>.\<close>

definition FUNC_DEF_RE :: regex where
  "FUNC_DEF_RE =
     seqs [Bol,
       Group 1 (Star (alts [Seq (Lit ''static'') (Plus Sp), Seq (Lit ''const'') (Plus Sp),
                            Seq (Lit ''inline'') (Plus Sp),
                            seqs [Lit ''DT_OMP_'', Plus Wd, Plus Sp]])),
       Group 2 (seqs [
         Star (Seq (alts [Lit ''unsigned'', Lit ''signed'', Lit ''long'', Lit ''short'',
                          Lit ''struct'', Lit ''enum'', Lit ''const'', Lit ''volatile''])
                   (Plus Sp)),
         alts [Lit ''void'', Lit ''int'', Lit ''float'', Lit ''double'', Lit ''gboolean'',
               Lit ''gchar'', Lit ''char'', Lit ''size_t'', Lit ''cl_int'',
               Seq (Lit ''dt_'') (Plus Wd), Lit ''GtkWidget'', Seq (Lit ''cairo_'') (Plus Wd)],
         Star Sp, Opt (Lit ''*''), Star Sp]),
       Group 3 Ident, Star Sp, Lit ''('']"

definition FORWARD_DECL_RE :: regex where
  "FORWARD_DECL_RE =
     seqs [Bol, Lit ''static'', Plus Sp, Plus (Cls [CWord, CSpace, CChar (CHR ''*'')]), WordB,
           Group 1 Ident, Star Sp, Lit ''('', Star (NCls [CChar (CHR '')'')]), Lit '')'',
           Star Sp, Lit '';'']"

definition NOT_FUNCTIONS :: "string set" where
  "NOT_FUNCTIONS =
    {''if'', ''for'', ''while'', ''switch'', ''return'', ''sizeof'', ''typeof'', ''DT_OMP_FOR'',
     ''DT_OMP_FOR_SIMD'', ''DT_OMP_PRAGMA''}"

definition IS_FWD_RE :: regex where
  "IS_FWD_RE = seqs [Star Dot, Lit '')'', Star Sp, Lit '';'', Eol]"

definition is_forward_declaration :: "string \<Rightarrow> bool" where
  "is_forward_declaration line = matches IS_FWD_RE (py_strip line)"

text \<open>\<^verbatim>\<open>get_function_name\<close> returns the pair \<^verbatim>\<open>(name, is_static)\<close>, or
  \<^verbatim>\<open>(None, None)\<close>, here \<open>None\<close>.\<close>

definition get_function_name :: "string \<Rightarrow> (string \<times> bool) option" where
  "get_function_name line =
     (let stripped = py_strip line in
      if stripped = [] \<or> prefix ''#'' stripped \<or> prefix ''//'' stripped \<or> prefix ''/*'' stripped
      then None
      else (case re_match FUNC_DEF_RE stripped of
              Some ms \<Rightarrow>
                (let name = grp ms 3; is_static = is_substr ''static'' (grp ms 1) in
                 if name \<in> NOT_FUNCTIONS then None else Some (name, is_static))
            | None \<Rightarrow> None))"

definition is_explicitly_gui_function :: "string \<Rightarrow> bool" where
  "is_explicitly_gui_function name =
     (if name \<in> GUI_FUNCTION_NAMES then True
      else list_ex (\<lambda>p. prefix p name) GUI_FUNCTION_PREFIXES)"

definition function_body_has_gui_tokens :: "string \<Rightarrow> bool" where
  "function_body_has_gui_tokens func_body = list_ex (\<lambda>token. is_substr token func_body) GUI_TOKENS"

section \<open>Function map\<close>

text \<open>The dictionary \<^verbatim>\<open>name -> (start, end, is_static)\<close>, in insertion order: an
  association list with distinct keys, where storing under a key that is present
  replaces the value in place.\<close>

type_synonym span = "nat \<times> nat \<times> bool"
type_synonym func_map = "(string \<times> span) list"

lemma brace_loop_bounds:
  "brace_loop ls i d f = Some e \<Longrightarrow> i \<le> e \<and> e < i + length ls"
proof (induction ls arbitrary: i d f)
  case Nil
  then show ?case by simp
next
  case (Cons l ls)
  show ?case
  proof (cases "scan_braces (cut_line_comment (strip_strings_and_chars l)) d f")
    case Closed
    with Cons.prems show ?thesis by simp
  next
    case (Scanning d' f')
    with Cons.prems have "brace_loop ls (i + 1) d' f' = Some e" by simp
    from Cons.IH[OF this] show ?thesis by simp
  qed
qed

lemma find_brace_block_end_bounds:
  "find_brace_block_end lines i = Some e \<Longrightarrow> i \<le> e \<and> e < length lines"
  unfolding find_brace_block_end_def
  by (cases "i \<le> length lines") (auto dest!: brace_loop_bounds)

definition bfm_step :: "string list \<Rightarrow> nat \<Rightarrow> func_map \<Rightarrow> nat \<times> func_map" where
  "bfm_step lines i func_map =
     (case get_function_name (lines ! i) of
        Some (name, is_static) \<Rightarrow>
          if is_forward_declaration (lines ! i) then (i + 1, func_map)
          else if i + 1 < length lines \<and> is_forward_declaration (lines ! i @ lines ! (i + 1))
          then (i + 1, func_map)
          else (case find_brace_block_end lines i of
                  Some en \<Rightarrow> (en + 1, AList.update name (i, en, is_static) func_map)
                | None \<Rightarrow> (i + 1, func_map))
      | None \<Rightarrow> (i + 1, func_map))"

lemma bfm_step_advances: "i < fst (bfm_step lines i fm)"
  by (auto simp: bfm_step_def split: option.splits if_splits prod.splits
      dest!: find_brace_block_end_bounds)

function bfm_loop :: "string list \<Rightarrow> nat \<Rightarrow> func_map \<Rightarrow> func_map" where
  "bfm_loop lines i func_map =
     (if i < length lines
      then (let r = bfm_step lines i func_map in bfm_loop lines (fst r) (snd r))
      else func_map)"
  by pat_completeness auto
termination
proof (relation "measure (\<lambda>(lines, i, fm). length lines - i)")
  show "wf (measure (\<lambda>(lines, i, fm). length lines - i))" by simp
next
  fix lines :: "string list" and i :: nat and func_map :: func_map and r
  assume "i < length lines" and "r = bfm_step lines i func_map"
  then show "((lines, fst r, snd r), (lines, i, func_map))
      \<in> measure (\<lambda>(lines, i, fm). length lines - i)"
    using bfm_step_advances[of i lines func_map] by (simp add: case_prod_beta)
qed

declare bfm_loop.simps [simp del]

definition build_function_map :: "string list \<Rightarrow> func_map" where
  "build_function_map lines = bfm_loop lines 0 []"

section \<open>References to a function name\<close>

text \<open>The pattern \<^verbatim>\<open>r"\b" + re.escape(name) + r"\b"\<close>.\<close>

definition word_re :: "string \<Rightarrow> regex" where
  "word_re name = seqs [WordB, Lit name, WordB]"

text \<open>Whether line \<open>j\<close> lies in the span of a function of the skip set that the
  map knows.\<close>

definition in_skip :: "func_map \<Rightarrow> string set \<Rightarrow> nat \<Rightarrow> bool" where
  "in_skip func_map skip_set j =
     (\<exists>sn\<in>skip_set. case map_of func_map sn of
                        Some (ss, se, _) \<Rightarrow> ss \<le> j \<and> j \<le> se
                      | None \<Rightarrow> False)"

definition is_forward_decl_of :: "string \<Rightarrow> string \<Rightarrow> bool" where
  "is_forward_decl_of name line =
     (case re_match FORWARD_DECL_RE (py_strip line) of
        Some fwd \<Rightarrow> grp fwd 1 = name
      | None \<Rightarrow> False)"

fun ref_scan :: "string \<Rightarrow> nat \<Rightarrow> nat \<Rightarrow> func_map \<Rightarrow> string set \<Rightarrow> (nat \<times> string) list \<Rightarrow> bool" where
  "ref_scan name start en func_map skip_set [] = False"
| "ref_scan name start en func_map skip_set ((j, line) # others) =
     (if start \<le> j \<and> j \<le> en then ref_scan name start en func_map skip_set others
      else if in_skip func_map skip_set j then ref_scan name start en func_map skip_set others
      else if is_forward_decl_of name line then ref_scan name start en func_map skip_set others
      else if found_in (word_re name) line then True
      else ref_scan name start en func_map skip_set others)"

definition has_external_ref :: "string \<Rightarrow> string list \<Rightarrow> func_map \<Rightarrow> string set \<Rightarrow> bool" where
  "has_external_ref name lines func_map skip_set =
     (case map_of func_map name of
        None \<Rightarrow> True
      | Some (start, en, _) \<Rightarrow>
          ref_scan name start en func_map skip_set (enumerate 0 lines))"

section \<open>Iterative function removal\<close>

text \<open>The text of a span: \<^verbatim>\<open>"\n".join(lines[start : end + 1])\<close>.\<close>

definition body_of :: "string list \<Rightarrow> nat \<Rightarrow> nat \<Rightarrow> string" where
  "body_of lines start en = join_nl (slice lines start (en + 1))"

text \<open>Phase 1: the explicitly listed GUI functions.\<close>

fun phase1_loop :: "func_map \<Rightarrow> string set \<Rightarrow> string set" where
  "phase1_loop [] to_remove = to_remove"
| "phase1_loop ((name, _) # items) to_remove =
     (if name \<in> KEEP_FUNCTIONS then phase1_loop items to_remove
      else if is_explicitly_gui_function name then phase1_loop items (insert name to_remove)
      else phase1_loop items to_remove)"

definition phase1 :: "func_map \<Rightarrow> string set" where
  "phase1 func_map = phase1_loop func_map {}"

text \<open>Phase 2: one pass of the \<^verbatim>\<open>for\<close> loop over the map, with the set and the
  \<^verbatim>\<open>changed\<close> flag it leaves; then the \<^verbatim>\<open>while changed\<close> loop around it.\<close>

fun phase2_sweep ::
  "string list \<Rightarrow> func_map \<Rightarrow> func_map \<Rightarrow> string set \<times> bool \<Rightarrow> string set \<times> bool" where
  "phase2_sweep lines func_map [] acc = acc"
| "phase2_sweep lines func_map ((name, (start, en, is_static)) # items) (to_remove, changed) =
     (if name \<in> to_remove \<or> name \<in> KEEP_FUNCTIONS \<or> \<not> is_static
      then phase2_sweep lines func_map items (to_remove, changed)
      else if \<not> function_body_has_gui_tokens (body_of lines start en)
      then phase2_sweep lines func_map items (to_remove, changed)
      else if \<not> has_external_ref name lines func_map to_remove
      then phase2_sweep lines func_map items (insert name to_remove, True)
      else phase2_sweep lines func_map items (to_remove, changed))"

text \<open>Phase 4: the same loop without the token requirement.\<close>

fun phase4_sweep ::
  "string list \<Rightarrow> func_map \<Rightarrow> func_map \<Rightarrow> string set \<times> bool \<Rightarrow> string set \<times> bool" where
  "phase4_sweep lines func_map [] acc = acc"
| "phase4_sweep lines func_map ((name, (start, en, is_static)) # items) (to_remove, changed) =
     (if name \<in> to_remove \<or> name \<in> KEEP_FUNCTIONS \<or> \<not> is_static
      then phase4_sweep lines func_map items (to_remove, changed)
      else if \<not> has_external_ref name lines func_map to_remove
      then phase4_sweep lines func_map items (insert name to_remove, True)
      else phase4_sweep lines func_map items (to_remove, changed))"

text \<open>Phase 3: the GUI-token static functions that are left, each tested with the
  whole group and the removal set skipped.\<close>

fun remaining_gui_loop :: "string list \<Rightarrow> func_map \<Rightarrow> string set \<Rightarrow> string set \<Rightarrow> string set" where
  "remaining_gui_loop lines [] to_remove remaining_gui = remaining_gui"
| "remaining_gui_loop lines ((name, (start, en, is_static)) # items) to_remove remaining_gui =
     (if name \<in> to_remove \<or> name \<in> KEEP_FUNCTIONS \<or> \<not> is_static
      then remaining_gui_loop lines items to_remove remaining_gui
      else if function_body_has_gui_tokens (body_of lines start en)
      then remaining_gui_loop lines items to_remove (insert name remaining_gui)
      else remaining_gui_loop lines items to_remove remaining_gui)"

definition phase3 :: "string list \<Rightarrow> func_map \<Rightarrow> string set \<Rightarrow> string set" where
  "phase3 lines func_map to_remove =
     (let remaining_gui = remaining_gui_loop lines func_map to_remove {} in
      if remaining_gui \<noteq> {} then
        (let combined_skip = to_remove \<union> remaining_gui;
             can_remove =
               Set.filter (\<lambda>name. \<not> has_external_ref name lines func_map combined_skip) remaining_gui
         in if can_remove = remaining_gui then to_remove \<union> can_remove
            else to_remove \<union> can_remove)
      else to_remove)"

lemma phase2_sweep_grows:
  "phase2_sweep lines fm items (R, c) = (R', c') \<Longrightarrow>
     R \<subseteq> R' \<and> R' \<subseteq> R \<union> fst ` set items \<and> (c' \<longleftrightarrow> c \<or> R' \<noteq> R)"
proof (induction items arbitrary: R c)
  case Nil
  then show ?case by simp
next
  case (Cons item items)
  obtain name start en is_static where item: "item = (name, (start, en, is_static))"
    by (cases item) auto
  show ?case
  proof (cases "name \<in> R \<or> name \<in> KEEP_FUNCTIONS \<or> \<not> is_static
      \<or> \<not> function_body_has_gui_tokens (body_of lines start en)
      \<or> has_external_ref name lines fm R")
    case True
    with Cons.prems item have "phase2_sweep lines fm items (R, c) = (R', c')"
      by (auto split: if_splits)
    from Cons.IH[OF this] show ?thesis by auto
  next
    case False
    with Cons.prems item have "phase2_sweep lines fm items (insert name R, True) = (R', c')"
      by (auto split: if_splits)
    from Cons.IH[OF this] False item show ?thesis by auto
  qed
qed

lemma phase4_sweep_grows:
  "phase4_sweep lines fm items (R, c) = (R', c') \<Longrightarrow>
     R \<subseteq> R' \<and> R' \<subseteq> R \<union> fst ` set items \<and> (c' \<longleftrightarrow> c \<or> R' \<noteq> R)"
proof (induction items arbitrary: R c)
  case Nil
  then show ?case by simp
next
  case (Cons item items)
  obtain name start en is_static where item: "item = (name, (start, en, is_static))"
    by (cases item) auto
  show ?case
  proof (cases "name \<in> R \<or> name \<in> KEEP_FUNCTIONS \<or> \<not> is_static
      \<or> has_external_ref name lines fm R")
    case True
    with Cons.prems item have "phase4_sweep lines fm items (R, c) = (R', c')"
      by (auto split: if_splits)
    from Cons.IH[OF this] show ?thesis by auto
  next
    case False
    with Cons.prems item have "phase4_sweep lines fm items (insert name R, True) = (R', c')"
      by (auto split: if_splits)
    from Cons.IH[OF this] False item show ?thesis by auto
  qed
qed

lemma sweep_measure:
  assumes "R \<subseteq> R'" "R' \<subseteq> R \<union> fst ` set fm" "R' \<noteq> R"
  shows "card (fst ` set fm - R') < card (fst ` set fm - R)"
proof (rule psubset_card_mono)
  show "finite (fst ` set fm - R)" by simp
  from assms obtain x where "x \<in> R'" "x \<notin> R" by auto
  with assms show "fst ` set fm - R' \<subset> fst ` set fm - R" by auto
qed

text \<open>The loops \<^verbatim>\<open>while changed\<close> of phases 2 and 4.\<close>

function phase2_while :: "string list \<Rightarrow> func_map \<Rightarrow> string set \<Rightarrow> string set" where
  "phase2_while lines func_map to_remove =
     (let r = phase2_sweep lines func_map func_map (to_remove, False) in
      if snd r then phase2_while lines func_map (fst r) else fst r)"
  by pat_completeness auto
termination
proof (relation "measure (\<lambda>(lines, fm, R). card (fst ` set fm - R))")
  show "wf (measure (\<lambda>(lines, fm, R). card (fst ` set fm - R)))" by simp
next
  fix lines :: "string list" and func_map :: func_map and to_remove :: "string set" and r
  assume r: "r = phase2_sweep lines func_map func_map (to_remove, False)" and c: "snd r"
  from r have "phase2_sweep lines func_map func_map (to_remove, False) = (fst r, snd r)" by simp
  from phase2_sweep_grows[OF this] c
  have "card (fst ` set func_map - fst r) < card (fst ` set func_map - to_remove)"
    by (intro sweep_measure) auto
  then show "((lines, func_map, fst r), (lines, func_map, to_remove))
      \<in> measure (\<lambda>(lines, fm, R). card (fst ` set fm - R))"
    by simp
qed

declare phase2_while.simps [simp del]

function phase4_while :: "string list \<Rightarrow> func_map \<Rightarrow> string set \<Rightarrow> string set" where
  "phase4_while lines func_map to_remove =
     (let r = phase4_sweep lines func_map func_map (to_remove, False) in
      if snd r then phase4_while lines func_map (fst r) else fst r)"
  by pat_completeness auto
termination
proof (relation "measure (\<lambda>(lines, fm, R). card (fst ` set fm - R))")
  show "wf (measure (\<lambda>(lines, fm, R). card (fst ` set fm - R)))" by simp
next
  fix lines :: "string list" and func_map :: func_map and to_remove :: "string set" and r
  assume r: "r = phase4_sweep lines func_map func_map (to_remove, False)" and c: "snd r"
  from r have "phase4_sweep lines func_map func_map (to_remove, False) = (fst r, snd r)" by simp
  from phase4_sweep_grows[OF this] c
  have "card (fst ` set func_map - fst r) < card (fst ` set func_map - to_remove)"
    by (intro sweep_measure) auto
  then show "((lines, func_map, fst r), (lines, func_map, to_remove))
      \<in> measure (\<lambda>(lines, fm, R). card (fst ` set fm - R))"
    by simp
qed

declare phase4_while.simps [simp del]

definition find_all_functions_to_remove :: "string list \<Rightarrow> func_map \<Rightarrow> string set" where
  "find_all_functions_to_remove lines func_map =
     phase4_while lines func_map
       (phase3 lines func_map
         (phase2_while lines func_map
           (phase1 func_map)))"

section \<open>Stripping gui\_data references in kept functions\<close>

text \<open>The patterns of \<^verbatim>\<open>strip_gui_data_in_function\<close>, in the order the loop tries
  them. Groups of the assignment pattern: 1 is the indentation, 2 the variable.\<close>

definition GUI_DATA_ASSIGN_RE :: regex where
  "GUI_DATA_ASSIGN_RE =
     seqs [Group 1 (Star Sp), Opt (Seq (Lit ''const'') (Plus Sp)),
           alts [seqs [Lit ''dt_iop_'', Plus Wd, Lit ''_gui_data_t''], Lit ''void''],
           Star Sp, Lit ''*'', Star Sp, Opt (Seq (Lit ''const'') (Plus Sp)),
           Group 2 (Plus Wd), Star Sp, Lit ''='', Star Sp,
           Opt (seqs [Lit ''('', Star (NCls [CChar (CHR '')'')]), Lit '')'', Star Sp]),
           Lit ''self->gui_data'', Star Sp, Lit '';'']"

definition CAST_FIELD_RE :: regex where
  "CAST_FIELD_RE =
     seqs [Star Sp, Lit ''((dt_iop_'', Plus Wd, Lit ''_gui_data_t'', Star Sp, Lit ''*)'', Star Sp,
           Lit ''self->gui_data)->'', Plus Wd, Star Sp, Lit ''='', Star Dot, Lit '';'', Star Sp, Eol]"

definition RAW_IF_ONELINE_RE :: regex where
  "RAW_IF_ONELINE_RE =
     seqs [Star Sp, Lit ''if'', Star Sp, Lit ''('', Star Sp, Lit ''self->gui_data'', Star Sp,
           Lit '')'', Star Sp, Lit ''{'', Star (NCls [CChar (CHR ''}'')]), Lit ''}'', Star Sp, Eol]"

definition RAW_IF_RE :: regex where
  "RAW_IF_RE =
     seqs [Star Sp, Lit ''if'', Star Sp, Lit ''('', Star Sp, Lit ''self->gui_data'', Star Sp,
           Lit '')'']"

definition G_IF_RE :: "string \<Rightarrow> regex" where
  "G_IF_RE g =
     seqs [Group 1 (Star Sp), Lit ''if'', Star Sp, Lit ''('', Star Sp, Lit g, Star Sp, Lit '')'']"

definition ELSE_RE :: regex where
  "ELSE_RE = seqs [Star Sp, Lit ''else'', WordB]"

definition G_AND_RE :: "string \<Rightarrow> regex" where
  "G_AND_RE g = seqs [Star Sp, Lit ''if'', Star Sp, Lit ''('', Star Sp, Lit g, Star Sp, Lit ''&&'']"

definition AND_G_RE :: "string \<Rightarrow> regex" where
  "AND_G_RE g =
     seqs [Star Sp, Lit ''if'', Star Sp, Lit ''('', Star Dot, Lit ''&&'', Star Sp, Lit g, WordB]"

definition G_FIELD_RE :: "string \<Rightarrow> regex" where
  "G_FIELD_RE g =
     seqs [Star Sp, Lit g, Lit ''->'', Plus Wd, Star Sp, Lit ''='', Star Dot, Lit '';'', Star Sp, Eol]"

text \<open>\<^verbatim>\<open>find_brace_block_end(lines, i)\<close> when the result is not \<^verbatim>\<open>None\<close> and is at
  most \<^verbatim>\<open>func_end\<close>.\<close>

definition block_within :: "string list \<Rightarrow> nat \<Rightarrow> nat \<Rightarrow> nat option" where
  "block_within lines func_end i =
     (case find_brace_block_end lines i of
        Some block_end \<Rightarrow> if block_end \<le> func_end then Some block_end else None
      | None \<Rightarrow> None)"

text \<open>Reading \<^verbatim>\<open>lines[i]\<close> past the last line raises \<^verbatim>\<open>IndexError\<close>: the value
  \<open>None\<close> of the functions below. The loop that looks for the \<^verbatim>\<open>else\<close> after
  blank lines:\<close>

function skip_blank :: "string list \<Rightarrow> nat \<Rightarrow> nat \<Rightarrow> nat option" where
  "skip_blank lines func_end next_i =
     (if next_i \<le> func_end then
        (if next_i < length lines then
           (if py_strip (lines ! next_i) = [] then skip_blank lines func_end (next_i + 1)
            else Some next_i)
         else None)
      else Some next_i)"
  by pat_completeness auto
termination
  by (relation "measure (\<lambda>(lines, func_end, next_i). func_end + 1 - next_i)") auto

declare skip_blank.simps [simp del]

function find_else_open :: "string list \<Rightarrow> nat \<Rightarrow> nat \<Rightarrow> nat" where
  "find_else_open lines else_open else_block_end =
     (if else_open \<le> else_block_end then
        (if is_substr ''{'' (lines ! else_open) then else_open
         else find_else_open lines (else_open + 1) else_block_end)
      else else_open)"
  by pat_completeness auto
termination
  by (relation "measure (\<lambda>(lines, else_open, else_block_end). else_block_end + 1 - else_open)") auto

declare find_else_open.simps [simp del]

definition reindent :: "string \<Rightarrow> string \<Rightarrow> string" where
  "reindent indent eline =
     (if prefix (indent @ ''    '') eline then indent @ drop (length indent + 4) eline
      else if prefix (indent @ ''  '') eline then indent @ drop (length indent + 2) eline
      else eline)"

text \<open>One round of the main loop at line \<open>i\<close>: the lines appended to the result, the
  variable bound to the resource afterwards, and the next index. First the part
  under \<^verbatim>\<open>if gui_data_var:\<close>, for a bound variable \<open>g\<close>: the test
  \<^verbatim>\<open>if g_if_match:\<close> with a block that closes inside the function, then what
  follows the block.\<close>

definition g_if_block :: "string list \<Rightarrow> nat \<Rightarrow> string \<Rightarrow> nat \<Rightarrow> (string \<times> nat) option" where
  "g_if_block lines func_end g i =
     (case re_match (G_IF_RE g) (lines ! i) of
        Some g_if_match \<Rightarrow>
          (case block_within lines func_end i of
             Some if_block_end \<Rightarrow> Some (grp g_if_match 1, if_block_end)
           | None \<Rightarrow> None)
      | None \<Rightarrow> None)"

definition else_block :: "string list \<Rightarrow> nat \<Rightarrow> nat \<Rightarrow> nat option" where
  "else_block lines func_end next_i =
     (if next_i \<le> func_end \<and> matches ELSE_RE (lines ! next_i)
      then block_within lines func_end next_i else None)"

definition sgd_else_step ::
  "string list \<Rightarrow> nat \<Rightarrow> string \<Rightarrow> string \<Rightarrow> nat \<Rightarrow> (string list \<times> string option \<times> nat) option" where
  "sgd_else_step lines func_end g indent if_block_end =
     (case skip_blank lines func_end (if_block_end + 1) of
        None \<Rightarrow> None
      | Some next_i \<Rightarrow>
          (case else_block lines func_end next_i of
             Some else_block_end \<Rightarrow>
               (let else_open = find_else_open lines next_i else_block_end in
                Some (map (reindent indent) (slice lines (else_open + 1) else_block_end),
                      Some g, else_block_end + 1))
           | None \<Rightarrow> Some ([], Some g, if_block_end + 1)))"

definition sgd_bound_step ::
  "string list \<Rightarrow> nat \<Rightarrow> string \<Rightarrow> nat \<Rightarrow> (string list \<times> string option \<times> nat) option" where
  "sgd_bound_step lines func_end g i =
     (let line = lines ! i in
      case g_if_block lines func_end g i of
        Some (indent, if_block_end) \<Rightarrow> sgd_else_step lines func_end g indent if_block_end
      | None \<Rightarrow>
          (case (if matches (G_AND_RE g) line then block_within lines func_end i else None) of
             Some block_end \<Rightarrow> Some ([], Some g, block_end + 1)
           | None \<Rightarrow>
               (case (if matches (AND_G_RE g) line then block_within lines func_end i else None) of
                  Some block_end \<Rightarrow> Some ([], Some g, block_end + 1)
                | None \<Rightarrow>
                    if matches (G_FIELD_RE g) line then Some ([], Some g, i + 1)
                    else Some ([line], Some g, i + 1))))"

definition sgd_step ::
  "string list \<Rightarrow> nat \<Rightarrow> string option \<Rightarrow> nat \<Rightarrow> (string list \<times> string option \<times> nat) option" where
  "sgd_step lines func_end gui_data_var i =
     (let line = lines ! i in
      case re_match GUI_DATA_ASSIGN_RE line of
        Some gui_data_assign \<Rightarrow> Some ([], Some (grp gui_data_assign 2), i + 1)
      | None \<Rightarrow>
          if matches CAST_FIELD_RE line then Some ([], gui_data_var, i + 1)
          else if matches RAW_IF_ONELINE_RE line then Some ([], gui_data_var, i + 1)
          else (case (if matches RAW_IF_RE line then block_within lines func_end i else None) of
                  Some block_end \<Rightarrow> Some ([], gui_data_var, block_end + 1)
                | None \<Rightarrow>
                    (case gui_data_var of
                       None \<Rightarrow> Some ([line], gui_data_var, i + 1)
                     | Some g \<Rightarrow>
                         if g = [] then Some ([line], gui_data_var, i + 1)
                         else sgd_bound_step lines func_end g i)))"

lemma block_within_bounds:
  "block_within lines func_end i = Some e \<Longrightarrow> i \<le> e \<and> e \<le> func_end \<and> e < length lines"
  by (auto simp: block_within_def split: option.splits if_splits
      dest: find_brace_block_end_bounds)

lemma skip_blank_ge: "skip_blank lines func_end n = Some n' \<Longrightarrow> n \<le> n'"
proof (induction lines func_end n rule: skip_blank.induct)
  case (1 lines func_end next_i)
  show ?case
  proof (cases "next_i \<le> func_end \<and> next_i < length lines \<and> py_strip (lines ! next_i) = []")
    case True
    with "1.prems" have "skip_blank lines func_end (next_i + 1) = Some n'"
      by (subst (asm) skip_blank.simps) simp
    with "1.IH" True show ?thesis by fastforce
  next
    case False
    with "1.prems" show ?thesis
      by (subst (asm) skip_blank.simps) (auto split: if_splits)
  qed
qed

lemma sgd_else_step_advances:
  assumes "sgd_else_step lines func_end g indent if_block_end = Some (out, v, i')"
  shows "if_block_end < i'"
proof (cases "skip_blank lines func_end (if_block_end + 1)")
  case None
  with assms show ?thesis by (simp add: sgd_else_step_def)
next
  case (Some next_i)
  note sb = Some
  from skip_blank_ge[OF Some] have ge: "if_block_end + 1 \<le> next_i" .
  show ?thesis
  proof (cases "else_block lines func_end next_i")
    case None
    with assms sb show ?thesis by (simp add: sgd_else_step_def)
  next
    case (Some else_block_end)
    then have "block_within lines func_end next_i = Some else_block_end"
      by (simp add: else_block_def split: if_splits)
    from block_within_bounds[OF this] ge have "if_block_end < else_block_end + 1" by simp
    moreover from assms sb Some have "i' = else_block_end + 1"
      by (simp add: sgd_else_step_def Let_def)
    ultimately show ?thesis by simp
  qed
qed

lemma g_if_block_bounds:
  "g_if_block lines func_end g i = Some (indent, e) \<Longrightarrow> i \<le> e \<and> e \<le> func_end \<and> e < length lines"
  by (auto simp: g_if_block_def split: option.splits dest: block_within_bounds)

lemma sgd_bound_step_advances:
  assumes "sgd_bound_step lines func_end g i = Some (out, v, i')"
  shows "i < i'"
proof (cases "g_if_block lines func_end g i")
  case (Some p)
  obtain indent if_block_end where p: "p = (indent, if_block_end)" by (cases p) auto
  from g_if_block_bounds Some p have "i \<le> if_block_end" by blast
  moreover from assms Some p
  have "sgd_else_step lines func_end g indent if_block_end = Some (out, v, i')"
    by (simp add: sgd_bound_step_def Let_def)
  then have "if_block_end < i'" by (rule sgd_else_step_advances)
  ultimately show ?thesis by simp
next
  case None
  note first = None
  show ?thesis
  proof (cases "if matches (G_AND_RE g) (lines ! i) then block_within lines func_end i else None")
    case (Some block_end)
    then have "block_within lines func_end i = Some block_end" by (simp split: if_splits)
    from block_within_bounds[OF this] have "i \<le> block_end" by simp
    moreover from assms first Some have "i' = block_end + 1"
      by (simp add: sgd_bound_step_def Let_def)
    ultimately show ?thesis by simp
  next
    case None
    note second = None
    show ?thesis
    proof (cases "if matches (AND_G_RE g) (lines ! i) then block_within lines func_end i else None")
      case (Some block_end)
      then have "block_within lines func_end i = Some block_end" by (simp split: if_splits)
      from block_within_bounds[OF this] have "i \<le> block_end" by simp
      moreover from assms first second Some have "i' = block_end + 1"
        by (simp add: sgd_bound_step_def Let_def)
      ultimately show ?thesis by simp
    next
      case None
      with assms first second have "i' = i + 1"
        by (simp add: sgd_bound_step_def Let_def split: if_splits)
      then show ?thesis by simp
    qed
  qed
qed

lemma sgd_step_advances:
  assumes "sgd_step lines func_end v i = Some (out, v', i')"
  shows "i < i'"
proof (cases "re_match GUI_DATA_ASSIGN_RE (lines ! i)")
  case (Some a)
  with assms show ?thesis by (simp add: sgd_step_def Let_def)
next
  case None
  note no_assign = None
  show ?thesis
  proof (cases "matches CAST_FIELD_RE (lines ! i) \<or> matches RAW_IF_ONELINE_RE (lines ! i)")
    case True
    with assms no_assign show ?thesis by (auto simp: sgd_step_def Let_def split: if_splits)
  next
    case False
    note no_line = False
    show ?thesis
    proof (cases "if matches RAW_IF_RE (lines ! i) then block_within lines func_end i else None")
      case (Some block_end)
      then have "block_within lines func_end i = Some block_end" by (simp split: if_splits)
      from block_within_bounds[OF this] have "i \<le> block_end" by simp
      moreover from assms no_assign no_line Some have "i' = block_end + 1"
        by (simp add: sgd_step_def Let_def)
      ultimately show ?thesis by simp
    next
      case None
      show ?thesis
      proof (cases "case v of None \<Rightarrow> True | Some g \<Rightarrow> g = []")
        case True
        with assms no_assign no_line None have "i' = i + 1"
          by (auto simp: sgd_step_def Let_def split: option.splits if_splits)
        then show ?thesis by simp
      next
        case False
        then obtain g where g: "v = Some g" "g \<noteq> []" by (cases v) auto
        with assms no_assign no_line None
        have "sgd_bound_step lines func_end g i = Some (out, v', i')"
          by (simp add: sgd_step_def Let_def)
        then show ?thesis by (rule sgd_bound_step_advances)
      qed
    qed
  qed
qed

function sgd_loop :: "string list \<Rightarrow> nat \<Rightarrow> string option \<Rightarrow> nat \<Rightarrow> string list option" where
  "sgd_loop lines func_end gui_data_var i =
     (if i \<le> func_end then
        (if i < length lines then
           (case sgd_step lines func_end gui_data_var i of
              None \<Rightarrow> None
            | Some r \<Rightarrow>
                (case sgd_loop lines func_end (fst (snd r)) (snd (snd r)) of
                   None \<Rightarrow> None
                 | Some result \<Rightarrow> Some (fst r @ result)))
         else None)
      else Some [])"
  by pat_completeness auto
termination
proof (relation "measure (\<lambda>(lines, func_end, v, i). func_end + 1 - i)")
  show "wf (measure (\<lambda>(lines, func_end, v, i). func_end + 1 - i))" by simp
next
  fix lines :: "string list" and func_end :: nat and gui_data_var :: "string option"
    and i :: nat and r
  assume le: "i \<le> func_end" and r: "sgd_step lines func_end gui_data_var i = Some r"
  from r have "sgd_step lines func_end gui_data_var i = Some (fst r, fst (snd r), snd (snd r))"
    by simp
  from sgd_step_advances[OF this] le
  show "((lines, func_end, fst (snd r), snd (snd r)), (lines, func_end, gui_data_var, i))
      \<in> measure (\<lambda>(lines, func_end, v, i). func_end + 1 - i)"
    by (simp add: case_prod_beta)
qed

declare sgd_loop.simps [simp del]

definition strip_gui_data_in_function :: "string list \<Rightarrow> nat \<Rightarrow> nat \<Rightarrow> string list option" where
  "strip_gui_data_in_function lines func_start func_end = sgd_loop lines func_end None func_start"

section \<open>Forward declaration cleanup\<close>

fun remove_forward_declarations :: "string list \<Rightarrow> string set \<Rightarrow> string list" where
  "remove_forward_declarations [] removed_names = []"
| "remove_forward_declarations (line # lines) removed_names =
     (case re_match FORWARD_DECL_RE (py_strip line) of
        Some fwd \<Rightarrow>
          if grp fwd 1 \<in> removed_names then remove_forward_declarations lines removed_names
          else line # remove_forward_declarations lines removed_names
      | None \<Rightarrow> line # remove_forward_declarations lines removed_names)"

section \<open>Main stripping logic\<close>

text \<open>Pass 2: one round of the loop at line \<open>i\<close> gives the lines it appends and the
  next index.\<close>

definition is_commented_gui_include :: "string \<Rightarrow> bool" where
  "is_commented_gui_include line =
     (let stripped = py_strip line in
      if prefix ''//'' stripped \<and> is_substr ''#include'' stripped
      then (let test_line = py_strip (lstrip_slash stripped) in is_gui_include test_line)
      else False)"

definition pass2_step :: "string list \<Rightarrow> string set \<Rightarrow> nat \<Rightarrow> string list \<times> nat" where
  "pass2_step lines to_remove i =
     (let line = lines ! i in
      if is_gui_include line then ([], i + 1)
      else if is_commented_gui_include line then ([], i + 1)
      else (case (if is_gui_data_struct_start line then find_brace_block_end lines i else None) of
              Some en \<Rightarrow> ([], en + 1)
            | None \<Rightarrow>
                (case (case get_function_name line of
                         Some (name, is_static) \<Rightarrow>
                           if name \<in> to_remove \<and> name \<notin> KEEP_FUNCTIONS
                              \<and> \<not> is_forward_declaration line
                           then find_brace_block_end lines i else None
                       | None \<Rightarrow> None) of
                   Some en \<Rightarrow> ([], en + 1)
                 | None \<Rightarrow> ([line], i + 1))))"

lemma pass2_step_advances: "i < snd (pass2_step lines to_remove i)"
proof (cases "is_gui_include (lines ! i) \<or> is_commented_gui_include (lines ! i)")
  case True
  then show ?thesis by (auto simp: pass2_step_def Let_def)
next
  case False
  note no_inc = False
  show ?thesis
  proof (cases "if is_gui_data_struct_start (lines ! i) then find_brace_block_end lines i else None")
    case (Some en)
    then have "find_brace_block_end lines i = Some en" by (simp split: if_splits)
    from find_brace_block_end_bounds[OF this] no_inc Some show ?thesis
      by (simp add: pass2_step_def Let_def)
  next
    case None
    note no_struct = None
    show ?thesis
    proof (cases "case get_function_name (lines ! i) of
                         Some (name, is_static) \<Rightarrow>
                           if name \<in> to_remove \<and> name \<notin> KEEP_FUNCTIONS
                              \<and> \<not> is_forward_declaration (lines ! i)
                           then find_brace_block_end lines i else None
                       | None \<Rightarrow> None")
      case None
      with no_inc no_struct show ?thesis by (simp add: pass2_step_def Let_def)
    next
      case (Some en)
      then have "find_brace_block_end lines i = Some en"
        by (simp split: option.splits prod.splits if_splits)
      from find_brace_block_end_bounds[OF this] no_inc no_struct Some show ?thesis
        by (simp add: pass2_step_def Let_def)
    qed
  qed
qed

function pass2_loop :: "string list \<Rightarrow> string set \<Rightarrow> nat \<Rightarrow> string list" where
  "pass2_loop lines to_remove i =
     (if i < length lines
      then (let r = pass2_step lines to_remove i in fst r @ pass2_loop lines to_remove (snd r))
      else [])"
  by pat_completeness auto
termination
proof (relation "measure (\<lambda>(lines, to_remove, i). length lines - i)")
  show "wf (measure (\<lambda>(lines, to_remove, i). length lines - i))" by simp
next
  fix lines :: "string list" and to_remove :: "string set" and i :: nat and r
  assume "i < length lines" and "r = pass2_step lines to_remove i"
  then show "((lines, to_remove, snd r), (lines, to_remove, i))
      \<in> measure (\<lambda>(lines, to_remove, i). length lines - i)"
    using pass2_step_advances[of i lines to_remove] by simp
qed

declare pass2_loop.simps [simp del]

text \<open>Pass 4: the functions of the kept map whose text mentions the resource, in
  descending order of their first line (\<^verbatim>\<open>sort(key=..., reverse=True)\<close>, which is
  stable), each replaced in the list by its stripped body.\<close>

fun funcs_to_strip_loop :: "string list \<Rightarrow> func_map \<Rightarrow> (string \<times> nat \<times> nat) list" where
  "funcs_to_strip_loop output_lines [] = []"
| "funcs_to_strip_loop output_lines ((name, (start, en, is_static)) # items) =
     (let body = body_of output_lines start en in
      if is_substr ''gui_data'' body \<or> is_substr ''_gui_data_t'' body
      then (name, start, en) # funcs_to_strip_loop output_lines items
      else funcs_to_strip_loop output_lines items)"

definition sort_by_start_desc :: "(string \<times> nat \<times> nat) list \<Rightarrow> (string \<times> nat \<times> nat) list" where
  "sort_by_start_desc fs = rev (sort_key (\<lambda>x. fst (snd x)) (rev fs))"

fun strip_funcs :: "(string \<times> nat \<times> nat) list \<Rightarrow> string list \<Rightarrow> string list option" where
  "strip_funcs [] output_lines = Some output_lines"
| "strip_funcs ((name, start, en) # fs) output_lines =
     (case strip_gui_data_in_function output_lines start en of
        None \<Rightarrow> None
      | Some stripped_body \<Rightarrow>
          strip_funcs fs (take start output_lines @ stripped_body @ drop (en + 1) output_lines))"

definition pass4 :: "string list \<Rightarrow> string list option" where
  "pass4 output_lines =
     (let kept_func_map = build_function_map output_lines;
          funcs_to_strip = funcs_to_strip_loop output_lines kept_func_map
      in strip_funcs (sort_by_start_desc funcs_to_strip) output_lines)"

text \<open>Pass 4b: lines that touch \<^verbatim>\<open>self->widget\<close> through GTK calls.\<close>

definition WIDGET_IF_RE :: regex where
  "WIDGET_IF_RE = seqs [Lit ''if'', Star Sp, Lit ''('', Star Sp, Lit ''self->widget'', Star Sp, Lit '')'']"

fun pass4b :: "string list \<Rightarrow> string list" where
  "pass4b [] = []"
| "pass4b (line # output_lines) =
     (let stripped = py_strip line in
      if matches WIDGET_IF_RE stripped
         \<and> (is_substr ''gtk_stack'' stripped \<or> is_substr ''gtk_widget'' stripped)
      then [] # pass4b output_lines
      else if is_substr ''self->widget'' stripped
         \<and> (is_substr ''gtk_stack_'' stripped \<or> is_substr ''gtk_widget_'' stripped)
      then pass4b output_lines
      else line # pass4b output_lines)"

text \<open>Pass 5: the orphan sweep over the stripped output, and the removal of what it
  finds.\<close>

fun post_sweep ::
  "string list \<Rightarrow> func_map \<Rightarrow> func_map \<Rightarrow> string set \<times> bool \<Rightarrow> string set \<times> bool" where
  "post_sweep output_lines post_func_map [] acc = acc"
| "post_sweep output_lines post_func_map ((name, (start, en, is_static)) # items)
       (post_orphans, changed) =
     (if name \<in> KEEP_FUNCTIONS \<or> name \<in> post_orphans
      then post_sweep output_lines post_func_map items (post_orphans, changed)
      else if \<not> function_body_has_gui_tokens (body_of output_lines start en)
      then post_sweep output_lines post_func_map items (post_orphans, changed)
      else if \<not> has_external_ref name output_lines post_func_map post_orphans
      then post_sweep output_lines post_func_map items (insert name post_orphans, True)
      else post_sweep output_lines post_func_map items (post_orphans, changed))"

lemma post_sweep_grows:
  "post_sweep lines fm items (R, c) = (R', c') \<Longrightarrow>
     R \<subseteq> R' \<and> R' \<subseteq> R \<union> fst ` set items \<and> (c' \<longleftrightarrow> c \<or> R' \<noteq> R)"
proof (induction items arbitrary: R c)
  case Nil
  then show ?case by simp
next
  case (Cons item items)
  obtain name start en is_static where item: "item = (name, (start, en, is_static))"
    by (cases item) auto
  show ?case
  proof (cases "name \<in> KEEP_FUNCTIONS \<or> name \<in> R
      \<or> \<not> function_body_has_gui_tokens (body_of lines start en)
      \<or> has_external_ref name lines fm R")
    case True
    with Cons.prems item have "post_sweep lines fm items (R, c) = (R', c')"
      by (auto split: if_splits)
    from Cons.IH[OF this] show ?thesis by auto
  next
    case False
    with Cons.prems item have "post_sweep lines fm items (insert name R, True) = (R', c')"
      by (auto split: if_splits)
    from Cons.IH[OF this] False item show ?thesis by auto
  qed
qed

function post_while :: "string list \<Rightarrow> func_map \<Rightarrow> string set \<Rightarrow> string set" where
  "post_while output_lines post_func_map post_orphans =
     (let r = post_sweep output_lines post_func_map post_func_map (post_orphans, False) in
      if snd r then post_while output_lines post_func_map (fst r) else fst r)"
  by pat_completeness auto
termination
proof (relation "measure (\<lambda>(lines, fm, R). card (fst ` set fm - R))")
  show "wf (measure (\<lambda>(lines, fm, R). card (fst ` set fm - R)))" by simp
next
  fix output_lines :: "string list" and post_func_map :: func_map
    and post_orphans :: "string set" and r
  assume r: "r = post_sweep output_lines post_func_map post_func_map (post_orphans, False)"
    and c: "snd r"
  from r have "post_sweep output_lines post_func_map post_func_map (post_orphans, False)
      = (fst r, snd r)" by simp
  from post_sweep_grows[OF this] c
  have "card (fst ` set post_func_map - fst r) < card (fst ` set post_func_map - post_orphans)"
    by (intro sweep_measure) auto
  then show "((output_lines, post_func_map, fst r), (output_lines, post_func_map, post_orphans))
      \<in> measure (\<lambda>(lines, fm, R). card (fst ` set fm - R))"
    by simp
qed

declare post_while.simps [simp del]

definition post_clean_step :: "string list \<Rightarrow> string set \<Rightarrow> nat \<Rightarrow> string list \<times> nat" where
  "post_clean_step output_lines post_orphans i =
     (case (case get_function_name (output_lines ! i) of
              Some (name, is_static) \<Rightarrow>
                if name \<in> post_orphans \<and> \<not> is_forward_declaration (output_lines ! i)
                then find_brace_block_end output_lines i else None
            | None \<Rightarrow> None) of
        Some en \<Rightarrow> ([], en + 1)
      | None \<Rightarrow> ([output_lines ! i], i + 1))"

lemma post_clean_step_advances: "i < snd (post_clean_step lines orphans i)"
proof (cases "case get_function_name (lines ! i) of
              Some (name, is_static) \<Rightarrow>
                if name \<in> orphans \<and> \<not> is_forward_declaration (lines ! i)
                then find_brace_block_end lines i else None
            | None \<Rightarrow> None")
  case None
  then show ?thesis by (simp add: post_clean_step_def)
next
  case (Some en)
  then have "find_brace_block_end lines i = Some en"
    by (simp split: option.splits prod.splits if_splits)
  from find_brace_block_end_bounds[OF this] Some show ?thesis
    by (simp add: post_clean_step_def)
qed

function post_clean_loop :: "string list \<Rightarrow> string set \<Rightarrow> nat \<Rightarrow> string list" where
  "post_clean_loop output_lines post_orphans i =
     (if i < length output_lines
      then (let r = post_clean_step output_lines post_orphans i
            in fst r @ post_clean_loop output_lines post_orphans (snd r))
      else [])"
  by pat_completeness auto
termination
proof (relation "measure (\<lambda>(lines, orphans, i). length lines - i)")
  show "wf (measure (\<lambda>(lines, orphans, i). length lines - i))" by simp
next
  fix output_lines :: "string list" and post_orphans :: "string set" and i :: nat and r
  assume "i < length output_lines" and "r = post_clean_step output_lines post_orphans i"
  then show "((output_lines, post_orphans, snd r), (output_lines, post_orphans, i))
      \<in> measure (\<lambda>(lines, orphans, i). length lines - i)"
    using post_clean_step_advances[of i output_lines post_orphans] by simp
qed

declare post_clean_loop.simps [simp del]

definition pass5 :: "string list \<Rightarrow> string set \<Rightarrow> string list \<times> string set" where
  "pass5 output_lines to_remove =
     (let post_func_map = build_function_map output_lines;
          post_orphans = post_while output_lines post_func_map {}
      in if post_orphans \<noteq> {}
         then (remove_forward_declarations (post_clean_loop output_lines post_orphans 0) post_orphans,
               to_remove \<union> post_orphans)
         else (output_lines, to_remove))"

text \<open>Pass 6: stray \<^verbatim>\<open>gui_data\<close> lines.\<close>

definition GUI_DATA_DECL_RE :: regex where
  "GUI_DATA_DECL_RE =
     seqs [Opt (Seq (Lit ''const'') (Plus Sp)), Lit ''dt_iop_'', Plus Wd, Lit ''_gui_data_t'',
           Star Sp, Lit ''*'']"

definition GUI_DATA_CAST_RE :: regex where
  "GUI_DATA_CAST_RE =
     seqs [Lit ''((dt_iop_'', Plus Wd, Lit ''_gui_data_t'', Star Sp, Lit ''*)'', Star Sp,
           Lit ''self->gui_data)'']"

fun pass6 :: "string list \<Rightarrow> string list" where
  "pass6 [] = []"
| "pass6 (line # output_lines) =
     (let stripped = py_strip line in
      if matches GUI_DATA_DECL_RE stripped \<and> is_substr ''self->gui_data'' stripped
      then pass6 output_lines
      else if matches GUI_DATA_CAST_RE stripped then pass6 output_lines
      else line # pass6 output_lines)"

text \<open>Pass 7: at most two blank lines in a row.\<close>

fun pass7 :: "string list \<Rightarrow> nat \<Rightarrow> string list" where
  "pass7 [] blank_count = []"
| "pass7 (line # output_lines) blank_count =
     (if py_strip line = []
      then (if blank_count + 1 \<le> 2 then line # pass7 output_lines (blank_count + 1)
            else pass7 output_lines (blank_count + 1))
      else line # pass7 output_lines 0)"

text \<open>The passes of \<^verbatim>\<open>strip_iop\<close> between reading and writing: from the lines of the
  input to the lines written and the set of removed functions that is reported.
  \<open>None\<close> is an \<^verbatim>\<open>IndexError\<close> that leaves the function.\<close>

definition strip_iop_lines :: "string list \<Rightarrow> (string list \<times> string set) option" where
  "strip_iop_lines lines =
     (let func_map = build_function_map lines;
          to_remove = find_all_functions_to_remove lines func_map;
          assembled = pass2_loop lines to_remove 0;
          declared = remove_forward_declarations assembled to_remove
      in case pass4 declared of
           None \<Rightarrow> None
         | Some rewritten \<Rightarrow>
             (let clean_widget = pass4b rewritten;
                  swept = pass5 clean_widget to_remove;
                  clean_lines = pass6 (fst swept);
                  final_lines = pass7 clean_lines 0
              in Some (final_lines, snd swept)))"

section \<open>Command line\<close>

text \<open>The file system, as far as the script looks at it. \<open>regular fs p\<close> is
  \<open>None\<close> when \<open>p\<close> is not the path of a regular file
  (\<^verbatim>\<open>os.path.isfile\<close> answers false); it is \<open>Some Unreadable\<close> for a
  regular file that \<^verbatim>\<open>open(p, "r")\<close> or \<^verbatim>\<open>readlines()\<close> cannot read (no
  permission, bytes that do not decode), and \<open>Some (Text t)\<close> for one that
  decodes to the text \<open>t\<close>. \<open>writable fs p\<close> says whether
  \<^verbatim>\<open>open(p, "w")\<close> succeeds; writing to an opened file is taken to succeed, and
  so is printing the report. Reading in text mode translates \<^verbatim>\<open>\r\n\<close> and
  \<^verbatim>\<open>\r\<close> to \<^verbatim>\<open>\n\<close>; \<^verbatim>\<open>readlines\<close> cuts after every newline;
  \<^verbatim>\<open>writelines\<close> writes the lines one after the other.\<close>

datatype entry = Text string | Unreadable

record file_system =
  regular :: "string \<rightharpoonup> entry"
  writable :: "string \<Rightarrow> bool"

abbreviation CR :: char where "CR \<equiv> CHR 0x0D"

fun universal_newlines :: "string \<Rightarrow> string" where
  "universal_newlines [] = []"
| "universal_newlines [c] = (if c = CR then [NL] else [c])"
| "universal_newlines (c # d # cs) =
     (if c = CR \<and> d = NL then NL # universal_newlines cs
      else if c = CR then NL # universal_newlines (d # cs)
      else c # universal_newlines (d # cs))"

fun split_lines :: "string \<Rightarrow> string \<Rightarrow> string list" where
  "split_lines cur [] = (if cur = [] then [] else [cur])"
| "split_lines cur (c # cs) =
     (if c = NL then (cur @ [NL]) # split_lines [] cs else split_lines (cur @ [c]) cs)"

definition readlines :: "string \<Rightarrow> string list" where
  "readlines content = split_lines [] (universal_newlines content)"

record report =
  input_path :: string
  output_path :: string
  removed_functions :: "string set"
  lines_before :: nat
  lines_after :: nat

text \<open>The exceptions that leave \<^verbatim>\<open>strip_iop\<close>: \<^verbatim>\<open>OSError\<close> or
  \<^verbatim>\<open>UnicodeDecodeError\<close> while reading, \<^verbatim>\<open>IndexError\<close> in the passes,
  \<^verbatim>\<open>OSError\<close> when the output is opened.\<close>

datatype error = ReadError | IndexError | WriteError

text \<open>\<^verbatim>\<open>strip_iop\<close>: the file system with the output written and the report
  printed, or the exception. The input is read and closed before the output is
  opened, so the two paths may be the same.\<close>

definition strip_iop :: "string \<Rightarrow> string \<Rightarrow> file_system \<Rightarrow> error + (file_system \<times> report)" where
  "strip_iop inp outp fs =
     (case regular fs inp of
        None \<Rightarrow> Inl ReadError
      | Some Unreadable \<Rightarrow> Inl ReadError
      | Some (Text content) \<Rightarrow>
          (let lines = readlines content in
           case strip_iop_lines lines of
             None \<Rightarrow> Inl IndexError
           | Some (final_lines, to_remove) \<Rightarrow>
               if \<not> writable fs outp then Inl WriteError
               else Inr (fs\<lparr>regular := (regular fs)(outp \<mapsto> Text (concat final_lines))\<rparr>,
                         \<lparr>input_path = inp, output_path = outp, removed_functions = to_remove,
                          lines_before = length lines, lines_after = length final_lines\<rparr>)))"

datatype err_output = Silent | Printed string | Traceback error

record outcome =
  exit_code :: nat
  stderr :: err_output
  stdout :: "report option"
  files :: file_system

text \<open>\<^verbatim>\<open>main\<close> with \<^verbatim>\<open>sys.argv = prog # args\<close>. \<^verbatim>\<open>sys.exit(1)\<close> and an exception
  that nothing catches both end the process with status 1; returning from
  \<^verbatim>\<open>main\<close> ends it with status 0.\<close>

definition main :: "string \<Rightarrow> string list \<Rightarrow> file_system \<Rightarrow> outcome" where
  "main prog args fs =
     (if length (prog # args) \<noteq> 3
      then \<lparr>exit_code = 1, stderr = Printed (''Usage: '' @ prog @ '' input.c output.c''),
            stdout = None, files = fs\<rparr>
      else (let inp = args ! 0; outp = args ! 1 in
            if regular fs inp = None
            then \<lparr>exit_code = 1, stderr = Printed (''Error: '' @ inp @ '' not found''),
                  stdout = None, files = fs\<rparr>
            else (case strip_iop inp outp fs of
                    Inl e \<Rightarrow> \<lparr>exit_code = 1, stderr = Traceback e, stdout = None, files = fs\<rparr>
                  | Inr (fs', rep) \<Rightarrow>
                      \<lparr>exit_code = 0, stderr = Silent, stdout = Some rep, files = fs'\<rparr>)))"

section \<open>The sweeps as one scheme\<close>

text \<open>Phases 2 and 4 and the orphan sweep are the same loop with different
  admission tests. \<open>gsweep cand ext\<close> is that loop for a test \<open>cand\<close> on the entry
  and a reference test \<open>ext\<close> on the name and the current set.\<close>

fun gsweep ::
  "(string \<times> span \<Rightarrow> bool) \<Rightarrow> (string \<Rightarrow> string set \<Rightarrow> bool) \<Rightarrow> func_map \<Rightarrow>
     string set \<times> bool \<Rightarrow> string set \<times> bool" where
  "gsweep cand ext [] acc = acc"
| "gsweep cand ext (item # items) (R, c) =
     (if fst item \<notin> R \<and> cand item \<and> \<not> ext (fst item) R
      then gsweep cand ext items (insert (fst item) R, True)
      else gsweep cand ext items (R, c))"

definition cand2 :: "string list \<Rightarrow> string \<times> span \<Rightarrow> bool" where
  "cand2 lines item =
     (case item of (name, (start, en, is_static)) \<Rightarrow>
        name \<notin> KEEP_FUNCTIONS \<and> is_static \<and> function_body_has_gui_tokens (body_of lines start en))"

definition cand4 :: "string \<times> span \<Rightarrow> bool" where
  "cand4 item = (case item of (name, (start, en, is_static)) \<Rightarrow> name \<notin> KEEP_FUNCTIONS \<and> is_static)"

definition cand5 :: "string list \<Rightarrow> string \<times> span \<Rightarrow> bool" where
  "cand5 lines item =
     (case item of (name, (start, en, is_static)) \<Rightarrow>
        name \<notin> KEEP_FUNCTIONS \<and> function_body_has_gui_tokens (body_of lines start en))"

lemma phase2_sweep_gsweep:
  "phase2_sweep lines fm items acc = gsweep (cand2 lines) (\<lambda>n R. has_external_ref n lines fm R) items acc"
proof (induction items arbitrary: acc)
  case Nil
  show ?case by simp
next
  case (Cons item items)
  obtain R c where acc: "acc = (R, c)" by (cases acc) auto
  obtain name start en is_static where item: "item = (name, (start, en, is_static))"
    by (cases item) auto
  show ?case unfolding acc item by (simp add: cand2_def Cons.IH)
qed

lemma phase4_sweep_gsweep:
  "phase4_sweep lines fm items acc = gsweep cand4 (\<lambda>n R. has_external_ref n lines fm R) items acc"
proof (induction items arbitrary: acc)
  case Nil
  show ?case by simp
next
  case (Cons item items)
  obtain R c where acc: "acc = (R, c)" by (cases acc) auto
  obtain name start en is_static where item: "item = (name, (start, en, is_static))"
    by (cases item) auto
  show ?case unfolding acc item by (simp add: cand4_def Cons.IH)
qed

lemma post_sweep_gsweep:
  "post_sweep lines fm items acc = gsweep (cand5 lines) (\<lambda>n R. has_external_ref n lines fm R) items acc"
proof (induction items arbitrary: acc)
  case Nil
  show ?case by simp
next
  case (Cons item items)
  obtain R c where acc: "acc = (R, c)" by (cases acc) auto
  obtain name start en is_static where item: "item = (name, (start, en, is_static))"
    by (cases item) auto
  show ?case unfolding acc item by (simp add: cand5_def Cons.IH)
qed

text \<open>What one sweep does to the set: it grows, by names of admitted entries only.\<close>

lemma gsweep_grows:
  "gsweep cand ext items (R, c) = (R', c') \<Longrightarrow>
     R \<subseteq> R' \<and> R' \<subseteq> R \<union> fst ` {it \<in> set items. cand it} \<and> (c' \<longleftrightarrow> c \<or> R' \<noteq> R)"
proof (induction items arbitrary: R c)
  case Nil
  then show ?case by simp
next
  case (Cons item items)
  show ?case
  proof (cases "fst item \<notin> R \<and> cand item \<and> \<not> ext (fst item) R")
    case True
    with Cons.prems have "gsweep cand ext items (insert (fst item) R, True) = (R', c')" by simp
    from Cons.IH[OF this]
    have 1: "insert (fst item) R \<subseteq> R'"
      and 2: "R' \<subseteq> insert (fst item) R \<union> fst ` {it \<in> set items. cand it}"
      and 3: "c'" by auto
    from 1 have "R \<subseteq> R'" by auto
    moreover from 2 True have "R' \<subseteq> R \<union> fst ` {it \<in> set (item # items). cand it}" by auto
    moreover from 1 True have "R' \<noteq> R" by auto
    ultimately show ?thesis using 3 by simp
  next
    case False
    with Cons.prems have "gsweep cand ext items (R, c) = (R', c')" by auto
    from Cons.IH[OF this] show ?thesis by auto
  qed
qed

text \<open>A set is closed when no admitted entry outside it passes the reference test.
  A sweep stays below every closed set above its start, when a larger skip set
  never adds references; a sweep that changes nothing has found its set closed.\<close>

definition closed_under ::
  "(string \<times> span \<Rightarrow> bool) \<Rightarrow> (string \<Rightarrow> string set \<Rightarrow> bool) \<Rightarrow> (string \<times> span) set \<Rightarrow> string set \<Rightarrow> bool" where
  "closed_under cand ext items T = (\<forall>it\<in>items. cand it \<and> fst it \<notin> T \<longrightarrow> ext (fst it) T)"

definition antimono_ext :: "(string \<Rightarrow> string set \<Rightarrow> bool) \<Rightarrow> bool" where
  "antimono_ext ext = (\<forall>n S T. S \<subseteq> T \<longrightarrow> ext n T \<longrightarrow> ext n S)"

lemma gsweep_below_closed:
  assumes "antimono_ext ext" "closed_under cand ext (set items) T"
  shows "gsweep cand ext items (R, c) = (R', c') \<Longrightarrow> R \<subseteq> T \<Longrightarrow> R' \<subseteq> T"
  using assms(2)
proof (induction items arbitrary: R c)
  case Nil
  then show ?case by simp
next
  case (Cons item items)
  from Cons.prems(3) have cl: "closed_under cand ext (set items) T"
    by (simp add: closed_under_def)
  show ?case
  proof (cases "fst item \<notin> R \<and> cand item \<and> \<not> ext (fst item) R")
    case True
    with Cons.prems have sw: "gsweep cand ext items (insert (fst item) R, True) = (R', c')" by simp
    have "fst item \<in> T"
    proof (rule ccontr)
      assume "fst item \<notin> T"
      with Cons.prems(3) True have "ext (fst item) T" by (simp add: closed_under_def)
      with assms(1) Cons.prems(2) have "ext (fst item) R" unfolding antimono_ext_def by blast
      with True show False by simp
    qed
    with Cons.prems(2) have "insert (fst item) R \<subseteq> T" by simp
    from Cons.IH[OF sw this cl] show ?thesis .
  next
    case False
    with Cons.prems have "gsweep cand ext items (R, c) = (R', c')" by auto
    from Cons.IH[OF this Cons.prems(2) cl] show ?thesis .
  qed
qed

lemma gsweep_unchanged_closed:
  "gsweep cand ext items (R, c) = (R, c') \<Longrightarrow> closed_under cand ext (set items) R"
proof (induction items arbitrary: c)
  case Nil
  show ?case by (simp add: closed_under_def)
next
  case (Cons item items)
  show ?case
  proof (cases "fst item \<notin> R \<and> cand item \<and> \<not> ext (fst item) R")
    case True
    with Cons.prems have "gsweep cand ext items (insert (fst item) R, True) = (R, c')" by simp
    from gsweep_grows[OF this] True show ?thesis by auto
  next
    case False
    with Cons.prems have "gsweep cand ext items (R, c) = (R, c')" by auto
    from Cons.IH[OF this] False show ?thesis by (auto simp: closed_under_def)
  qed
qed

text \<open>The loop around the sweep, and its result: the least closed set above the
  start.\<close>

function gwhile ::
  "(string \<times> span \<Rightarrow> bool) \<Rightarrow> (string \<Rightarrow> string set \<Rightarrow> bool) \<Rightarrow> func_map \<Rightarrow> string set \<Rightarrow> string set" where
  "gwhile cand ext fm R =
     (let r = gsweep cand ext fm (R, False) in if snd r then gwhile cand ext fm (fst r) else fst r)"
  by pat_completeness auto
termination
proof (relation "measure (\<lambda>(cand, ext, fm, R). card (fst ` set fm - R))")
  show "wf (measure (\<lambda>(cand, ext, fm, R). card (fst ` set fm - R)))" by simp
next
  fix cand :: "string \<times> span \<Rightarrow> bool" and ext :: "string \<Rightarrow> string set \<Rightarrow> bool"
    and fm :: func_map and R :: "string set" and r
  assume r: "r = gsweep cand ext fm (R, False)" and c: "snd r"
  from r have "gsweep cand ext fm (R, False) = (fst r, snd r)" by simp
  from gsweep_grows[OF this] c
  have "card (fst ` set fm - fst r) < card (fst ` set fm - R)"
    by (intro sweep_measure) auto
  then show "((cand, ext, fm, fst r), (cand, ext, fm, R))
      \<in> measure (\<lambda>(cand, ext, fm, R). card (fst ` set fm - R))"
    by simp
qed

declare gwhile.simps [simp del]

lemma phase2_while_gwhile:
  "phase2_while lines fm R = gwhile (cand2 lines) (\<lambda>n R. has_external_ref n lines fm R) fm R"
proof (induction lines fm R rule: phase2_while.induct)
  case (1 lines fm R)
  show ?case
    by (subst phase2_while.simps, subst gwhile.simps)
       (simp add: Let_def phase2_sweep_gsweep 1[unfolded phase2_sweep_gsweep])
qed

lemma phase4_while_gwhile:
  "phase4_while lines fm R = gwhile cand4 (\<lambda>n R. has_external_ref n lines fm R) fm R"
proof (induction lines fm R rule: phase4_while.induct)
  case (1 lines fm R)
  show ?case
    by (subst phase4_while.simps, subst gwhile.simps)
       (simp add: Let_def phase4_sweep_gsweep 1[unfolded phase4_sweep_gsweep])
qed

lemma post_while_gwhile:
  "post_while lines fm R = gwhile (cand5 lines) (\<lambda>n R. has_external_ref n lines fm R) fm R"
proof (induction lines fm R rule: post_while.induct)
  case (1 lines fm R)
  show ?case
    by (subst post_while.simps, subst gwhile.simps)
       (simp add: Let_def post_sweep_gsweep 1[unfolded post_sweep_gsweep])
qed

lemma gwhile_grows:
  "R \<subseteq> gwhile cand ext fm R \<and> gwhile cand ext fm R \<subseteq> R \<union> fst ` {it \<in> set fm. cand it}"
proof (induction cand ext fm R rule: gwhile.induct)
  case (1 cand ext fm R)
  obtain R' c' where sw: "gsweep cand ext fm (R, False) = (R', c')"
    by (cases "gsweep cand ext fm (R, False)") auto
  note g = gsweep_grows[OF sw]
  show ?case
  proof (cases c')
    case True
    with sw have eq: "gwhile cand ext fm R = gwhile cand ext fm R'"
      by (subst gwhile.simps) simp
    from "1.IH"[of "(R', c')"] sw True
    have "R' \<subseteq> gwhile cand ext fm R' \<and> gwhile cand ext fm R' \<subseteq> R' \<union> fst ` {it \<in> set fm. cand it}"
      by simp
    with g eq show ?thesis by auto
  next
    case False
    with sw have "gwhile cand ext fm R = R'" by (subst gwhile.simps) simp
    with g show ?thesis by auto
  qed
qed

lemma gwhile_closed: "closed_under cand ext (set fm) (gwhile cand ext fm R)"
proof (induction cand ext fm R rule: gwhile.induct)
  case (1 cand ext fm R)
  obtain R' c' where sw: "gsweep cand ext fm (R, False) = (R', c')"
    by (cases "gsweep cand ext fm (R, False)") auto
  note g = gsweep_grows[OF sw]
  show ?case
  proof (cases c')
    case True
    with sw have eq: "gwhile cand ext fm R = gwhile cand ext fm R'"
      by (subst gwhile.simps) simp
    from "1.IH"[of "(R', c')"] sw True eq show ?thesis by simp
  next
    case False
    with sw have eq: "gwhile cand ext fm R = R'" by (subst gwhile.simps) simp
    from g False have "R' = R" by simp
    with sw have "gsweep cand ext fm (R, False) = (R, c')" by simp
    from gsweep_unchanged_closed[OF this] eq \<open>R' = R\<close> show ?thesis by simp
  qed
qed

lemma gwhile_below_closed:
  assumes "antimono_ext ext" "closed_under cand ext (set fm) T"
  shows "R \<subseteq> T \<Longrightarrow> gwhile cand ext fm R \<subseteq> T"
  using assms
proof (induction cand ext fm R rule: gwhile.induct)
  case (1 cand ext fm R)
  obtain R' c' where sw: "gsweep cand ext fm (R, False) = (R', c')"
    by (cases "gsweep cand ext fm (R, False)") auto
  from gsweep_below_closed[OF "1.prems"(2,3) sw "1.prems"(1)] have below: "R' \<subseteq> T" .
  show ?case
  proof (cases c')
    case True
    with sw have eq: "gwhile cand ext fm R = gwhile cand ext fm R'"
      by (subst gwhile.simps) simp
    from "1.IH"[of "(R', c')"] sw True below "1.prems"(2,3) eq show ?thesis by simp
  next
    case False
    with sw have "gwhile cand ext fm R = R'" by (subst gwhile.simps) simp
    with below show ?thesis by simp
  qed
qed

lemma gwhile_least:
  assumes "antimono_ext ext"
  shows "gwhile cand ext fm R = \<Inter>{T. R \<subseteq> T \<and> closed_under cand ext (set fm) T}"
proof
  show "gwhile cand ext fm R \<subseteq> \<Inter>{T. R \<subseteq> T \<and> closed_under cand ext (set fm) T}"
    using gwhile_below_closed[OF assms] by blast
  show "\<Inter>{T. R \<subseteq> T \<and> closed_under cand ext (set fm) T} \<subseteq> gwhile cand ext fm R"
    using gwhile_grows[of R cand ext fm] gwhile_closed[of cand ext fm R] by blast
qed

lemma gwhile_order_free:
  assumes "antimono_ext ext" "set fm' = set fm"
  shows "gwhile cand ext fm' R = gwhile cand ext fm R"
  by (simp add: gwhile_least[OF assms(1)] assms(2))

section \<open>The reference test\<close>

definition ref_line :: "string \<Rightarrow> nat \<Rightarrow> nat \<Rightarrow> func_map \<Rightarrow> string set \<Rightarrow> nat \<times> string \<Rightarrow> bool" where
  "ref_line name start en fm skip p =
     (\<not> (start \<le> fst p \<and> fst p \<le> en) \<and> \<not> in_skip fm skip (fst p)
        \<and> \<not> is_forward_decl_of name (snd p) \<and> found_in (word_re name) (snd p))"

lemma ref_scan_iff:
  "ref_scan name start en fm skip ls \<longleftrightarrow> (\<exists>p\<in>set ls. ref_line name start en fm skip p)"
proof (induction ls)
  case Nil
  show ?case by simp
next
  case (Cons p ls)
  obtain j line where p: "p = (j, line)" by (cases p) auto
  show ?case unfolding p using Cons.IH by (simp add: ref_line_def)
qed

lemma in_skip_mono: "S \<subseteq> T \<Longrightarrow> in_skip fm S j \<Longrightarrow> in_skip fm T j"
  unfolding in_skip_def by blast

lemma ref_line_antimono:
  "S \<subseteq> T \<Longrightarrow> ref_line name start en fm T p \<Longrightarrow> ref_line name start en fm S p"
  unfolding ref_line_def using in_skip_mono by blast

lemma has_external_ref_antimono:
  assumes "S \<subseteq> T" "has_external_ref n lines fm T"
  shows "has_external_ref n lines fm S"
proof (cases "map_of fm n")
  case None
  then show ?thesis by (simp add: has_external_ref_def)
next
  case (Some sp)
  obtain start en st where sp: "sp = (start, en, st)" by (cases sp) auto
  from assms(2) Some sp have "\<exists>p\<in>set (enumerate 0 lines). ref_line n start en fm T p"
    by (simp add: has_external_ref_def ref_scan_iff)
  with assms(1) have "\<exists>p\<in>set (enumerate 0 lines). ref_line n start en fm S p"
    using ref_line_antimono by blast
  with Some sp show ?thesis by (simp add: has_external_ref_def ref_scan_iff)
qed

lemma antimono_has_external_ref: "antimono_ext (\<lambda>n R. has_external_ref n lines fm R)"
  unfolding antimono_ext_def using has_external_ref_antimono by blast

lemma in_skip_map_of: "map_of fm' = map_of fm \<Longrightarrow> in_skip fm' S j = in_skip fm S j"
  by (simp add: in_skip_def)

lemma has_external_ref_map_of:
  assumes "map_of fm' = map_of fm"
  shows "has_external_ref n lines fm' S = has_external_ref n lines fm S"
proof (cases "map_of fm n")
  case None
  with assms show ?thesis by (simp add: has_external_ref_def)
next
  case (Some sp)
  obtain start en st where sp: "sp = (start, en, st)" by (cases sp) auto
  from assms Some sp show ?thesis
    by (simp add: has_external_ref_def ref_scan_iff ref_line_def in_skip_map_of[OF assms])
qed

lemma map_of_eq_of_set_eq:
  assumes "distinct (map fst fm)" "distinct (map fst fm')" "set fm' = set fm"
  shows "map_of fm' = map_of fm"
proof (rule ext)
  fix k
  show "map_of fm' k = map_of fm k"
  proof (cases "map_of fm k")
    case None
    then have "k \<notin> fst ` set fm" by (simp add: map_of_eq_None_iff)
    with assms(3) have "k \<notin> fst ` set fm'" by simp
    then have "map_of fm' k = None" by (simp add: map_of_eq_None_iff)
    with None show ?thesis by simp
  next
    case (Some v)
    then have "(k, v) \<in> set fm" by (rule map_of_SomeD)
    with assms(3) have "(k, v) \<in> set fm'" by simp
    with assms(2) have "map_of fm' k = Some v" by simp
    with Some show ?thesis by simp
  qed
qed

section \<open>The classifier phase by phase\<close>

lemma phase1_loop_eq:
  "phase1_loop fm R =
     R \<union> {n \<in> fst ` set fm. n \<notin> KEEP_FUNCTIONS \<and> is_explicitly_gui_function n}"
proof (induction fm arbitrary: R)
  case Nil
  show ?case by simp
next
  case (Cons item fm)
  obtain name sp where item: "item = (name, sp)" by (cases item) auto
  show ?case unfolding item by (auto simp: Cons.IH)
qed

lemma phase1_eq:
  "phase1 fm = {n \<in> fst ` set fm. n \<notin> KEEP_FUNCTIONS \<and> is_explicitly_gui_function n}"
  by (simp add: phase1_def phase1_loop_eq)

lemma remaining_gui_loop_iff:
  "n \<in> remaining_gui_loop lines items R G \<longleftrightarrow>
     n \<in> G \<or> (\<exists>it\<in>set items. fst it = n \<and> n \<notin> R \<and> cand2 lines it)"
proof (induction items arbitrary: G)
  case Nil
  show ?case by simp
next
  case (Cons item items)
  obtain name start en is_static where item: "item = (name, (start, en, is_static))"
    by (cases item) auto
  show ?case
  proof (cases "name \<notin> R \<and> cand2 lines item")
    case True
    then have "remaining_gui_loop lines (item # items) R G
        = remaining_gui_loop lines items R (insert name G)"
      unfolding item by (simp add: cand2_def)
    with True show ?thesis unfolding item by (auto simp: Cons.IH)
  next
    case False
    then have "remaining_gui_loop lines (item # items) R G = remaining_gui_loop lines items R G"
      unfolding item by (auto simp: cand2_def)
    with False show ?thesis unfolding item by (auto simp: Cons.IH)
  qed
qed

lemma phase3_bounds:
  "R \<subseteq> phase3 lines fm R \<and> phase3 lines fm R \<subseteq> R \<union> remaining_gui_loop lines fm R {}"
  by (auto simp: phase3_def Let_def)

lemma phase3_grows: "R \<subseteq> phase3 lines fm R"
  using phase3_bounds by blast

lemma phase2_while_grows: "R \<subseteq> phase2_while lines fm R"
  using gwhile_grows[of R "cand2 lines" "\<lambda>n R. has_external_ref n lines fm R" fm]
  unfolding phase2_while_gwhile by blast

lemma phase4_while_grows: "R \<subseteq> phase4_while lines fm R"
  using gwhile_grows[of R cand4 "\<lambda>n R. has_external_ref n lines fm R" fm]
  unfolding phase4_while_gwhile by blast

lemma pass5_grows: "R \<subseteq> snd (pass5 out R)"
  by (simp add: pass5_def Let_def)

text \<open>Every phase keeps the set inside the keys of the map and outside the
  protected names.\<close>

definition removable_keys :: "func_map \<Rightarrow> string set" where
  "removable_keys fm = fst ` set fm - KEEP_FUNCTIONS"

lemma cand2_removable: "it \<in> set fm \<Longrightarrow> cand2 lines it \<Longrightarrow> fst it \<in> removable_keys fm"
  by (auto simp: cand2_def removable_keys_def split: prod.splits)

lemma cand4_removable: "it \<in> set fm \<Longrightarrow> cand4 it \<Longrightarrow> fst it \<in> removable_keys fm"
  by (auto simp: cand4_def removable_keys_def split: prod.splits)

lemma cand5_removable: "it \<in> set fm \<Longrightarrow> cand5 lines it \<Longrightarrow> fst it \<in> removable_keys fm"
  by (auto simp: cand5_def removable_keys_def split: prod.splits)

lemma phase1_removable: "phase1 fm \<subseteq> removable_keys fm"
  by (auto simp: phase1_eq removable_keys_def)

lemma phase2_while_removable:
  assumes "R \<subseteq> removable_keys fm"
  shows "phase2_while lines fm R \<subseteq> removable_keys fm"
proof -
  have "phase2_while lines fm R \<subseteq> R \<union> fst ` {it \<in> set fm. cand2 lines it}"
    using gwhile_grows[of R "cand2 lines" "\<lambda>n R. has_external_ref n lines fm R" fm]
    unfolding phase2_while_gwhile by blast
  with assms show ?thesis using cand2_removable by blast
qed

lemma phase3_removable:
  assumes "R \<subseteq> removable_keys fm"
  shows "phase3 lines fm R \<subseteq> removable_keys fm"
proof
  fix n assume "n \<in> phase3 lines fm R"
  with phase3_bounds have "n \<in> R \<or> n \<in> remaining_gui_loop lines fm R {}" by blast
  then show "n \<in> removable_keys fm"
  proof
    assume "n \<in> R" with assms show ?thesis by blast
  next
    assume "n \<in> remaining_gui_loop lines fm R {}"
    then obtain it where "it \<in> set fm" "fst it = n" "cand2 lines it"
      by (auto simp: remaining_gui_loop_iff)
    then show ?thesis using cand2_removable by blast
  qed
qed

lemma phase4_while_removable:
  assumes "R \<subseteq> removable_keys fm"
  shows "phase4_while lines fm R \<subseteq> removable_keys fm"
proof -
  have "phase4_while lines fm R \<subseteq> R \<union> fst ` {it \<in> set fm. cand4 it}"
    using gwhile_grows[of R "cand4" "\<lambda>n R. has_external_ref n lines fm R" fm]
    unfolding phase4_while_gwhile by blast
  with assms show ?thesis using cand4_removable by blast
qed

lemma find_all_removable: "find_all_functions_to_remove lines fm \<subseteq> removable_keys fm"
  unfolding find_all_functions_to_remove_def
  by (intro phase4_while_removable phase3_removable phase2_while_removable phase1_removable)

lemma post_while_removable: "post_while lines fm {} \<subseteq> removable_keys fm"
proof -
  have "post_while lines fm {} \<subseteq> {} \<union> fst ` {it \<in> set fm. cand5 lines it}"
    using gwhile_grows[of "{}" "cand5 lines" "\<lambda>n R. has_external_ref n lines fm R" fm]
    unfolding post_while_gwhile by blast
  then show ?thesis using cand5_removable by blast
qed

text \<open>The phases do not depend on the order of the map.\<close>

lemma phase1_order_free: "set fm' = set fm \<Longrightarrow> phase1 fm' = phase1 fm"
  by (simp add: phase1_eq)

lemma phase2_while_order_free:
  assumes "distinct (map fst fm)" "distinct (map fst fm')" "set fm' = set fm"
  shows "phase2_while lines fm' R = phase2_while lines fm R"
proof -
  have "map_of fm' = map_of fm" using assms by (rule map_of_eq_of_set_eq)
  then have ext: "(\<lambda>n R. has_external_ref n lines fm' R) = (\<lambda>n R. has_external_ref n lines fm R)"
    by (simp add: has_external_ref_map_of fun_eq_iff)
  show ?thesis
    unfolding phase2_while_gwhile ext
    by (rule gwhile_order_free[OF antimono_has_external_ref assms(3)])
qed

lemma phase4_while_order_free:
  assumes "distinct (map fst fm)" "distinct (map fst fm')" "set fm' = set fm"
  shows "phase4_while lines fm' R = phase4_while lines fm R"
proof -
  have "map_of fm' = map_of fm" using assms by (rule map_of_eq_of_set_eq)
  then have ext: "(\<lambda>n R. has_external_ref n lines fm' R) = (\<lambda>n R. has_external_ref n lines fm R)"
    by (simp add: has_external_ref_map_of fun_eq_iff)
  show ?thesis
    unfolding phase4_while_gwhile ext
    by (rule gwhile_order_free[OF antimono_has_external_ref assms(3)])
qed

lemma phase3_order_free:
  assumes "distinct (map fst fm)" "distinct (map fst fm')" "set fm' = set fm"
  shows "phase3 lines fm' R = phase3 lines fm R"
proof -
  have "map_of fm' = map_of fm" using assms by (rule map_of_eq_of_set_eq)
  then have her: "\<And>n S. has_external_ref n lines fm' S = has_external_ref n lines fm S"
    by (rule has_external_ref_map_of)
  have "remaining_gui_loop lines fm' R {} = remaining_gui_loop lines fm R {}"
    by (auto simp: remaining_gui_loop_iff assms(3))
  then show ?thesis by (simp add: phase3_def her Let_def)
qed

section \<open>The passes of a run\<close>

lemma strip_iop_lines_SomeD:
  assumes "strip_iop_lines lines = Some (final, R)"
  shows "\<exists>rewritten.
     pass4 (remove_forward_declarations
              (pass2_loop lines (find_all_functions_to_remove lines (build_function_map lines)) 0)
              (find_all_functions_to_remove lines (build_function_map lines))) = Some rewritten
     \<and> final = pass7 (pass6 (fst (pass5 (pass4b rewritten)
                  (find_all_functions_to_remove lines (build_function_map lines))))) 0
     \<and> R = snd (pass5 (pass4b rewritten)
                  (find_all_functions_to_remove lines (build_function_map lines)))"
proof (cases "pass4 (remove_forward_declarations
              (pass2_loop lines (find_all_functions_to_remove lines (build_function_map lines)) 0)
              (find_all_functions_to_remove lines (build_function_map lines)))")
  case None
  with assms show ?thesis by (simp add: strip_iop_lines_def Let_def)
next
  case (Some rewritten)
  with assms show ?thesis by (simp add: strip_iop_lines_def Let_def)
qed

section \<open>Passes that only drop lines\<close>

lemma remove_forward_declarations_eq:
  "remove_forward_declarations ls R = filter (\<lambda>l. \<not> (\<exists>n\<in>R. is_forward_decl_of n l)) ls"
proof (induction ls)
  case Nil
  show ?case by simp
next
  case (Cons l ls)
  show ?case
  proof (cases "re_match FORWARD_DECL_RE (py_strip l)")
    case None
    then show ?thesis by (simp add: Cons.IH is_forward_decl_of_def)
  next
    case (Some fwd)
    then show ?thesis by (simp add: Cons.IH is_forward_decl_of_def)
  qed
qed

lemma set_remove_forward_declarations: "set (remove_forward_declarations ls R) \<subseteq> set ls"
  by (simp add: remove_forward_declarations_eq)

lemma set_pass6: "set (pass6 ls) \<subseteq> set ls"
proof (induction ls)
  case Nil
  show ?case by simp
next
  case (Cons l ls)
  then show ?case by (auto simp: Let_def)
qed

lemma set_pass7: "set (pass7 ls n) \<subseteq> set ls"
proof (induction ls arbitrary: n)
  case Nil
  show ?case by simp
next
  case (Cons l ls)
  have "set (pass7 ls k) \<subseteq> set ls" for k by (rule Cons.IH)
  then show ?case by (auto split: if_splits)
qed

lemma post_clean_step_emits:
  "i < length ls \<Longrightarrow> set (fst (post_clean_step ls orphans i)) \<subseteq> set ls"
  by (auto simp: post_clean_step_def split: option.splits)

lemma set_post_clean_loop: "set (post_clean_loop ls orphans i) \<subseteq> set ls"
proof (induction ls orphans i rule: post_clean_loop.induct)
  case (1 ls orphans i)
  show ?case
  proof (cases "i < length ls")
    case True
    from "1.IH"[OF True refl]
    have "set (post_clean_loop ls orphans (snd (post_clean_step ls orphans i))) \<subseteq> set ls" .
    with post_clean_step_emits[OF True, of orphans] True show ?thesis
      by (subst post_clean_loop.simps) (simp add: Let_def)
  next
    case False
    then show ?thesis by (subst post_clean_loop.simps) simp
  qed
qed

lemma set_pass5: "set (fst (pass5 ls R)) \<subseteq> set ls"
proof -
  have "set (remove_forward_declarations (post_clean_loop ls orphans 0) orphans) \<subseteq> set ls"
    for orphans
    using set_remove_forward_declarations set_post_clean_loop by blast
  then show ?thesis by (simp add: pass5_def Let_def)
qed

lemma set_after_pass4b:
  "set (pass7 (pass6 (fst (pass5 ls R))) 0) \<subseteq> set ls"
  using set_pass7 set_pass6 set_pass5 by blast

lemma set_pass4b: "set (pass4b ls) \<subseteq> insert [] (set ls)"
proof (induction ls)
  case Nil
  show ?case by simp
next
  case (Cons l ls)
  then show ?case by (auto simp: Let_def)
qed

lemma pass4b_Cons: "pass4b (l # ls) = pass4b [l] @ pass4b ls"
proof (cases "matches WIDGET_IF_RE (py_strip l)
         \<and> (is_substr ''gtk_stack'' (py_strip l) \<or> is_substr ''gtk_widget'' (py_strip l))")
  case True
  then show ?thesis by (auto simp: Let_def)
next
  case False
  note first = False
  show ?thesis
  proof (cases "is_substr ''self->widget'' (py_strip l)
         \<and> (is_substr ''gtk_stack_'' (py_strip l) \<or> is_substr ''gtk_widget_'' (py_strip l))")
    case True
    with first show ?thesis by (auto simp: Let_def)
  next
    case False
    with first show ?thesis by (auto simp: Let_def)
  qed
qed

lemma pass4b_append: "pass4b (xs @ ys) = pass4b xs @ pass4b ys"
proof (induction xs)
  case Nil
  show ?case by simp
next
  case (Cons x xs)
  have "pass4b ((x # xs) @ ys) = pass4b [x] @ pass4b (xs @ ys)"
    using pass4b_Cons[of x "xs @ ys"] by simp
  also have "\<dots> = pass4b [x] @ pass4b xs @ pass4b ys" by (simp only: Cons.IH)
  also have "\<dots> = pass4b (x # xs) @ pass4b ys"
    using pass4b_Cons[of x xs] by simp
  finally show ?case .
qed

section \<open>Substrings\<close>

lemma prefix_is_substr: "prefix n s \<Longrightarrow> is_substr n s"
  by (cases s) auto

lemma is_substr_shorter: "is_substr (a @ b) s \<Longrightarrow> is_substr a s"
proof (induction s)
  case Nil
  then show ?case by simp
next
  case (Cons c s)
  from Cons.prems have "prefix (a @ b) (c # s) \<or> is_substr (a @ b) s" by simp
  then show ?case
  proof
    assume "prefix (a @ b) (c # s)"
    then have "prefix a (c # s)" by (rule append_prefixD)
    then show ?thesis by simp
  next
    assume "is_substr (a @ b) s"
    then have "is_substr a s" by (rule Cons.IH)
    then show ?thesis by simp
  qed
qed

lemma py_strip_Nil: "py_strip [] = []"
  by (simp add: py_strip_def)

section \<open>Definition lines\<close>

lemma get_function_name_SomeD:
  assumes "get_function_name line = Some x"
  shows "\<not> prefix ''#'' (py_strip line) \<and> \<not> prefix ''//'' (py_strip line)"
proof (rule ccontr)
  assume "\<not> ?thesis"
  then have "py_strip line = [] \<or> prefix ''#'' (py_strip line) \<or> prefix ''//'' (py_strip line)
      \<or> prefix ''/*'' (py_strip line)" by blast
  then have "get_function_name line = None" unfolding get_function_name_def Let_def by simp
  with assms show False by simp
qed

lemma definition_line_not_include:
  assumes "get_function_name line = Some x"
  shows "\<not> is_gui_include line \<and> \<not> is_commented_gui_include line"
proof -
  note d = get_function_name_SomeD[OF assms]
  have "prefix ''#include'' s \<Longrightarrow> prefix ''#'' s" for s :: string
    using append_prefixD[of "''#''" "''include''" s] by simp
  with d have "\<not> prefix ''#include'' (py_strip line)" by blast
  then have "\<not> is_gui_include line" by (simp add: is_gui_include_def Let_def)
  moreover from d have "\<not> is_commented_gui_include line"
    by (simp add: is_commented_gui_include_def Let_def)
  ultimately show ?thesis by simp
qed

lemma pass2_step_keeps:
  assumes "get_function_name (lines ! i) = Some (name, st)"
    and "is_gui_data_struct_start (lines ! i) \<longrightarrow> find_brace_block_end lines i = None"
    and "name \<notin> to_remove \<or> name \<in> KEEP_FUNCTIONS \<or> is_forward_declaration (lines ! i)
         \<or> find_brace_block_end lines i = None"
  shows "pass2_step lines to_remove i = ([lines ! i], i + 1)"
proof -
  note inc = definition_line_not_include[OF assms(1)]
  have s: "(if is_gui_data_struct_start (lines ! i) then find_brace_block_end lines i else None) = None"
    using assms(2) by simp
  have f: "(case get_function_name (lines ! i) of
              Some (name, is_static) \<Rightarrow>
                if name \<in> to_remove \<and> name \<notin> KEEP_FUNCTIONS \<and> \<not> is_forward_declaration (lines ! i)
                then find_brace_block_end lines i else None
            | None \<Rightarrow> None) = None"
    using assms(1,3) by auto
  show ?thesis unfolding pass2_step_def Let_def s f using inc by simp
qed

lemma post_clean_step_keeps:
  assumes "get_function_name (ls ! i) = Some (name, st)"
    and "name \<notin> orphans \<or> is_forward_declaration (ls ! i) \<or> find_brace_block_end ls i = None"
  shows "post_clean_step ls orphans i = ([ls ! i], i + 1)"
proof -
  have f: "(case get_function_name (ls ! i) of
              Some (name, is_static) \<Rightarrow>
                if name \<in> orphans \<and> \<not> is_forward_declaration (ls ! i)
                then find_brace_block_end ls i else None
            | None \<Rightarrow> None) = None"
    using assms by auto
  show ?thesis unfolding post_clean_step_def f by simp
qed

section \<open>The removal loops line by line\<close>

text \<open>The loop of Pass 2 gets to line \<open>s\<close> when no round that starts at an earlier
  line goes past it; what it has appended until then is a prefix of its result.
  The same holds for the loop of Pass 5.\<close>

lemma pass2_loop_reaches:
  "i \<le> s \<Longrightarrow> s < length lines \<Longrightarrow> \<forall>j<s. snd (pass2_step lines R j) \<le> s \<Longrightarrow>
     \<exists>pre. pass2_loop lines R i = pre @ pass2_loop lines R s"
proof (induction lines R i rule: pass2_loop.induct)
  case (1 lines R i)
  show ?case
  proof (cases "i = s")
    case True
    then show ?thesis by simp
  next
    case False
    with "1.prems" have lt: "i < s" "i < length lines" by simp_all
    define r where "r = pass2_step lines R i"
    from "1.prems"(3) lt have le: "snd r \<le> s" by (simp add: r_def)
    from "1.IH"[OF lt(2) r_def le "1.prems"(2,3)] obtain pre where
      pre: "pass2_loop lines R (snd r) = pre @ pass2_loop lines R s" by blast
    from lt have "pass2_loop lines R i = fst r @ pass2_loop lines R (snd r)"
      by (subst pass2_loop.simps) (simp add: r_def Let_def)
    with pre have "pass2_loop lines R i = (fst r @ pre) @ pass2_loop lines R s" by simp
    then show ?thesis by blast
  qed
qed

lemma pass2_loop_copies:
  assumes "s < length lines" and "\<forall>j<s. snd (pass2_step lines R j) \<le> s"
    and "pass2_step lines R s = ([lines ! s], s + 1)"
  shows "lines ! s \<in> set (pass2_loop lines R 0)"
proof -
  from pass2_loop_reaches[OF _ assms(1,2), of 0] obtain pre where
    "pass2_loop lines R 0 = pre @ pass2_loop lines R s" by auto
  moreover from assms(1,3) have "pass2_loop lines R s = lines ! s # pass2_loop lines R (s + 1)"
    by (subst pass2_loop.simps) simp
  ultimately show ?thesis by simp
qed

lemma post_clean_loop_reaches:
  "i \<le> s \<Longrightarrow> s < length ls \<Longrightarrow> \<forall>j<s. snd (post_clean_step ls R j) \<le> s \<Longrightarrow>
     \<exists>pre. post_clean_loop ls R i = pre @ post_clean_loop ls R s"
proof (induction ls R i rule: post_clean_loop.induct)
  case (1 ls R i)
  show ?case
  proof (cases "i = s")
    case True
    then show ?thesis by simp
  next
    case False
    with "1.prems" have lt: "i < s" "i < length ls" by simp_all
    define r where "r = post_clean_step ls R i"
    from "1.prems"(3) lt have le: "snd r \<le> s" by (simp add: r_def)
    from "1.IH"[OF lt(2) r_def le "1.prems"(2,3)] obtain pre where
      pre: "post_clean_loop ls R (snd r) = pre @ post_clean_loop ls R s" by blast
    from lt have "post_clean_loop ls R i = fst r @ post_clean_loop ls R (snd r)"
      by (subst post_clean_loop.simps) (simp add: r_def Let_def)
    with pre have "post_clean_loop ls R i = (fst r @ pre) @ post_clean_loop ls R s" by simp
    then show ?thesis by blast
  qed
qed

lemma post_clean_loop_copies:
  assumes "s < length ls" and "\<forall>j<s. snd (post_clean_step ls R j) \<le> s"
    and "post_clean_step ls R s = ([ls ! s], s + 1)"
  shows "ls ! s \<in> set (post_clean_loop ls R 0)"
proof -
  from post_clean_loop_reaches[OF _ assms(1,2), of 0] obtain pre where
    "post_clean_loop ls R 0 = pre @ post_clean_loop ls R s" by auto
  moreover from assms(1,3) have "post_clean_loop ls R s = ls ! s # post_clean_loop ls R (s + 1)"
    by (subst post_clean_loop.simps) simp
  ultimately show ?thesis by simp
qed

text \<open>A bounded statement about the rounds before line \<open>s\<close>, in the form in which
  it can be computed.\<close>

lemma all_less_upt: "(\<forall>j<s. P j) \<longleftrightarrow> (\<forall>j\<in>set [0..<s]. P j)"
  by auto

section \<open>From the text of Pass 5 to the written lines\<close>

text \<open>The text on which Pass 5 works in a run: the first lines of
  \<^verbatim>\<open>strip_iop\<close>, up to the end of Pass 4b.\<close>

definition pass5_input :: "string list \<Rightarrow> string list option" where
  "pass5_input lines =
     (let func_map = build_function_map lines;
          to_remove = find_all_functions_to_remove lines func_map;
          assembled = pass2_loop lines to_remove 0;
          declared = remove_forward_declarations assembled to_remove
      in map_option pass4b (pass4 declared))"

lemma run_after_pass4b:
  assumes "strip_iop_lines lines = Some (final, R)"
  shows "\<exists>ls. pass5_input lines = Some ls
     \<and> R = find_all_functions_to_remove lines (build_function_map lines)
           \<union> post_while ls (build_function_map ls) {}
     \<and> final = pass7 (pass6 (fst (pass5 ls
           (find_all_functions_to_remove lines (build_function_map lines))))) 0"
proof -
  from strip_iop_lines_SomeD[OF assms] obtain rewritten where
    p: "pass4 (remove_forward_declarations
              (pass2_loop lines (find_all_functions_to_remove lines (build_function_map lines)) 0)
              (find_all_functions_to_remove lines (build_function_map lines))) = Some rewritten"
    and f: "final = pass7 (pass6 (fst (pass5 (pass4b rewritten)
                  (find_all_functions_to_remove lines (build_function_map lines))))) 0"
    and R: "R = snd (pass5 (pass4b rewritten)
                  (find_all_functions_to_remove lines (build_function_map lines)))" by blast
  from p have "pass5_input lines = Some (pass4b rewritten)"
    by (simp add: pass5_input_def Let_def)
  moreover from R have "R = find_all_functions_to_remove lines (build_function_map lines)
      \<union> post_while (pass4b rewritten) (build_function_map (pass4b rewritten)) {}"
    by (auto simp: pass5_def Let_def)
  ultimately show ?thesis using f by blast
qed

lemma definition_line_not_blank:
  assumes "get_function_name line = Some x"
  shows "py_strip line \<noteq> []"
proof
  assume "py_strip line = []"
  then have "get_function_name line = None" unfolding get_function_name_def Let_def by simp
  with assms show False by simp
qed

lemma remove_forward_declarations_keeps:
  "l \<in> set ls \<Longrightarrow> \<forall>n\<in>R. \<not> is_forward_decl_of n l \<Longrightarrow> l \<in> set (remove_forward_declarations ls R)"
  by (simp add: remove_forward_declarations_eq)

lemma pass6_keeps:
  assumes "l \<in> set ls"
    and "\<not> (matches GUI_DATA_DECL_RE (py_strip l) \<and> is_substr ''self->gui_data'' (py_strip l))"
    and "\<not> matches GUI_DATA_CAST_RE (py_strip l)"
  shows "l \<in> set (pass6 ls)"
  using assms(1)
proof (induction ls)
  case Nil
  then show ?case by simp
next
  case (Cons x xs)
  show ?case
  proof (cases "l = x")
    case True
    from assms(2) have "(if matches GUI_DATA_DECL_RE (py_strip l)
          \<and> is_substr ''self->gui_data'' (py_strip l) then a else b) = b" for a b :: "string list"
      by (rule if_not_P)
    moreover from assms(3) have "(if matches GUI_DATA_CAST_RE (py_strip l) then a else b) = b"
      for a b :: "string list" by (rule if_not_P)
    ultimately have "pass6 (l # xs) = l # pass6 xs" by (simp only: pass6.simps Let_def)
    with True show ?thesis by simp
  next
    case False
    with Cons have "l \<in> set (pass6 xs)" by simp
    then show ?thesis by (simp add: Let_def)
  qed
qed

lemma pass7_keeps:
  assumes "py_strip l \<noteq> []"
  shows "l \<in> set ls \<Longrightarrow> l \<in> set (pass7 ls n)"
proof (induction ls arbitrary: n)
  case Nil
  then show ?case by simp
next
  case (Cons x xs)
  show ?case
  proof (cases "l = x")
    case True
    with assms show ?thesis by simp
  next
    case False
    with Cons.prems have "l \<in> set xs" by simp
    then have "l \<in> set (pass7 xs k)" for k by (rule Cons.IH)
    then show ?thesis by simp
  qed
qed

text \<open>A line that the loop of Pass 5 returns is written, unless the declaration
  filter of Pass 5, a test of Pass 6 or the collapse of blank lines applies to
  it.\<close>

lemma written_after_pass5:
  assumes run: "strip_iop_lines lines = Some (final, R)"
    and inp: "pass5_input lines = Some ls"
    and l: "l \<in> set (post_clean_loop ls (post_while ls (build_function_map ls) {}) 0)"
    and fwd: "\<forall>n\<in>R. \<not> is_forward_decl_of n l"
    and decl: "\<not> (matches GUI_DATA_DECL_RE (py_strip l) \<and> is_substr ''self->gui_data'' (py_strip l))"
    and cast: "\<not> matches GUI_DATA_CAST_RE (py_strip l)"
    and blank: "py_strip l \<noteq> []"
  shows "l \<in> set final"
proof -
  define T where "T = find_all_functions_to_remove lines (build_function_map lines)"
  define orphans where "orphans = post_while ls (build_function_map ls) {}"
  from run_after_pass4b[OF run] inp have R: "R = T \<union> orphans"
    and f: "final = pass7 (pass6 (fst (pass5 ls T))) 0"
    by (simp_all add: T_def orphans_def)
  have "l \<in> set (fst (pass5 ls T))"
  proof (cases "orphans = {}")
    case True
    from l set_post_clean_loop have "l \<in> set ls" by blast
    with True show ?thesis by (simp add: pass5_def Let_def orphans_def)
  next
    case False
    from fwd R have "\<forall>n\<in>orphans. \<not> is_forward_decl_of n l" by simp
    with l have "l \<in> set (remove_forward_declarations (post_clean_loop ls orphans 0) orphans)"
      unfolding orphans_def by (intro remove_forward_declarations_keeps)
    with False show ?thesis by (simp add: pass5_def Let_def orphans_def)
  qed
  then have "l \<in> set (pass6 (fst (pass5 ls T)))" using decl cast by (rule pass6_keeps)
  then have "l \<in> set (pass7 (pass6 (fst (pass5 ls T))) 0)" by (rule pass7_keeps[OF blank])
  with f show ?thesis by simp
qed

section \<open>What the function map holds\<close>

lemma set_update_subset: "set (AList.update k v al) \<subseteq> insert (k, v) (set al)"
  by (induction al) auto

lemma bfm_step_cases:
  "bfm_step lines i fm = (i + 1, fm)
   \<or> (\<exists>n st e. get_function_name (lines ! i) = Some (n, st) \<and> find_brace_block_end lines i = Some e
        \<and> bfm_step lines i fm = (e + 1, AList.update n (i, e, st) fm))"
proof (cases "get_function_name (lines ! i)")
  case None
  then show ?thesis by (simp add: bfm_step_def)
next
  case (Some p)
  obtain n st where p: "p = (n, st)" by (cases p) auto
  define c1 where "c1 = is_forward_declaration (lines ! i)"
  define c2 where "c2 = (i + 1 < length lines \<and> is_forward_declaration (lines ! i @ lines ! (i + 1)))"
  have eq: "bfm_step lines i fm =
      (if c1 then (i + 1, fm) else if c2 then (i + 1, fm)
       else (case find_brace_block_end lines i of
                  Some en \<Rightarrow> (en + 1, AList.update n (i, en, st) fm)
                | None \<Rightarrow> (i + 1, fm)))"
    unfolding bfm_step_def c1_def c2_def Some p by (simp only: option.case prod.case)
  show ?thesis
  proof (cases "find_brace_block_end lines i")
    case None
    then show ?thesis unfolding eq by simp
  next
    case (Some e)
    show ?thesis
    proof (cases "c1 \<or> c2")
      case True
      then show ?thesis unfolding eq by auto
    next
      case False
      then have "bfm_step lines i fm = (e + 1, AList.update n (i, e, st) fm)"
        unfolding eq using Some by simp
      with Some \<open>get_function_name (lines ! i) = Some p\<close> p show ?thesis by blast
    qed
  qed
qed

lemma bfm_step_entries:
  assumes "x \<in> set (snd (bfm_step lines i fm))"
  shows "x \<in> set fm \<or> (\<exists>n e st. x = (n, i, e, st)
           \<and> get_function_name (lines ! i) = Some (n, st) \<and> find_brace_block_end lines i = Some e)"
proof -
  from bfm_step_cases[of lines i fm] show ?thesis
  proof (elim disjE exE conjE)
    assume "bfm_step lines i fm = (i + 1, fm)"
    with assms have "x \<in> set fm" by simp
    then show ?thesis ..
  next
    fix n st e
    assume g: "get_function_name (lines ! i) = Some (n, st)"
      and f: "find_brace_block_end lines i = Some e"
      and b: "bfm_step lines i fm = (e + 1, AList.update n (i, e, st) fm)"
    from assms b have "x \<in> set (AList.update n (i, e, st) fm)" by simp
    with set_update_subset[of n "(i, e, st)" fm] have "x = (n, i, e, st) \<or> x \<in> set fm" by auto
    then show ?thesis
    proof
      assume "x = (n, i, e, st)"
      with g f have "\<exists>n e st. x = (n, i, e, st)
           \<and> get_function_name (lines ! i) = Some (n, st) \<and> find_brace_block_end lines i = Some e"
        by (intro exI conjI)
      then show ?thesis ..
    next
      assume "x \<in> set fm" then show ?thesis ..
    qed
  qed
qed

definition recorded_at :: "string list \<Rightarrow> string \<times> span \<Rightarrow> bool" where
  "recorded_at lines x =
     (case x of (n, s, e, st) \<Rightarrow>
        s < length lines \<and> get_function_name (lines ! s) = Some (n, st)
        \<and> find_brace_block_end lines s = Some e)"

lemma bfm_loop_entries:
  "x \<in> set (bfm_loop lines i fm) \<Longrightarrow> x \<in> set fm \<or> recorded_at lines x"
proof (induction lines i fm rule: bfm_loop.induct)
  case (1 lines i fm)
  show ?case
  proof (cases "i < length lines")
    case False
    with "1.prems" show ?thesis by (subst (asm) bfm_loop.simps) simp
  next
    case True
    with "1.prems" have "x \<in> set (bfm_loop lines (fst (bfm_step lines i fm)) (snd (bfm_step lines i fm)))"
      by (subst (asm) bfm_loop.simps) (simp add: Let_def)
    from "1.IH"[OF True refl this]
    have "x \<in> set (snd (bfm_step lines i fm)) \<or> recorded_at lines x" .
    then show ?thesis
    proof
      assume "x \<in> set (snd (bfm_step lines i fm))"
      from bfm_step_entries[OF this] True show ?thesis
        by (auto simp: recorded_at_def)
    next
      assume "recorded_at lines x" then show ?thesis by simp
    qed
  qed
qed

lemma build_function_map_entries:
  "x \<in> set (build_function_map lines) \<Longrightarrow> recorded_at lines x"
  using bfm_loop_entries[of x lines 0 "[]"] by (simp add: build_function_map_def)

section \<open>What a match can capture\<close>

text \<open>A relation between the state before and a state handed to the continuation
  is threaded by a matcher when every success goes through such a state.\<close>

definition threads ::
  "(mstate \<Rightarrow> mstate \<Rightarrow> bool) \<Rightarrow> (mstate \<Rightarrow> (mstate \<Rightarrow> mstate option) \<Rightarrow> mstate option) \<Rightarrow> bool" where
  "threads Q f = (\<forall>st k x. f st k = Some x \<longrightarrow> (\<exists>st'. Q st st' \<and> k st' = Some x))"

lemma threadsD: "threads Q f \<Longrightarrow> f st k = Some x \<Longrightarrow> \<exists>st'. Q st st' \<and> k st' = Some x"
  unfolding threads_def by blast

lemma star_m_threads:
  assumes refl: "\<And>st. Q st st" and trans: "\<And>a b c. Q a b \<Longrightarrow> Q b c \<Longrightarrow> Q a c"
    and f: "threads Q f"
  shows "star_m n f st k = Some x \<Longrightarrow> \<exists>st'. Q st st' \<and> k st' = Some x"
proof (induction n arbitrary: st)
  case 0
  then have "k st = Some x" by simp
  with refl show ?case by blast
next
  case (Suc n)
  let ?K = "\<lambda>st'. if length (rest st') < length (rest st) then star_m n f st' k else None"
  show ?case
  proof (cases "f st ?K")
    case None
    with Suc.prems have "k st = Some x" by simp
    with refl show ?thesis by blast
  next
    case (Some y)
    with Suc.prems have "y = x" by simp
    with Some have "f st ?K = Some x" by simp
    from threadsD[OF f this] obtain st1 where q: "Q st st1" and k1: "?K st1 = Some x" by blast
    from k1 have "star_m n f st1 k = Some x" by (simp split: if_splits)
    from Suc.IH[OF this] obtain st2 where "Q st1 st2" "k st2 = Some x" by blast
    with q trans show ?thesis by blast
  qed
qed

fun no_groups :: "regex \<Rightarrow> bool" where
  "no_groups (Seq r1 r2) = (no_groups r1 \<and> no_groups r2)"
| "no_groups (Alt r1 r2) = (no_groups r1 \<and> no_groups r2)"
| "no_groups (Star r) = no_groups r"
| "no_groups (Group n r) = False"
| "no_groups r = True"

definition same_groups :: "mstate \<Rightarrow> mstate \<Rightarrow> bool" where
  "same_groups st st' = (groups st' = groups st)"

lemma same_groups_advance: "same_groups st (advance n st)"
  by (simp add: same_groups_def advance_def)

lemma no_groups_threads: "no_groups r \<Longrightarrow> threads same_groups (m r)"
proof (induction r)
  case (Lit s)
  show ?case unfolding threads_def
    using same_groups_advance by (auto split: if_splits)
next
  case (Cls cs)
  show ?case unfolding threads_def
    using same_groups_advance by (auto split: list.splits if_splits)
next
  case (NCls cs)
  show ?case unfolding threads_def
    using same_groups_advance by (auto split: list.splits if_splits)
next
  case Dot
  show ?case unfolding threads_def
    using same_groups_advance by (auto split: list.splits if_splits)
next
  case (Seq r1 r2)
  then have 1: "threads same_groups (m r1)" and 2: "threads same_groups (m r2)" by simp_all
  show ?case unfolding threads_def
  proof (intro allI impI)
    fix st :: mstate and k :: "mstate \<Rightarrow> mstate option" and x :: mstate
    assume "m (Seq r1 r2) st k = Some x"
    then have "m r1 st (\<lambda>st'. m r2 st' k) = Some x" by simp
    from threadsD[OF 1 this] obtain st1 where a: "same_groups st st1" and "m r2 st1 k = Some x"
      by blast
    from threadsD[OF 2 this(2)] obtain st2 where "same_groups st1 st2" "k st2 = Some x" by blast
    with a show "\<exists>st'. same_groups st st' \<and> k st' = Some x" by (auto simp: same_groups_def)
  qed
next
  case (Alt r1 r2)
  then have 1: "threads same_groups (m r1)" and 2: "threads same_groups (m r2)" by simp_all
  show ?case unfolding threads_def
  proof (intro allI impI)
    fix st :: mstate and k :: "mstate \<Rightarrow> mstate option" and x :: mstate
    assume a: "m (Alt r1 r2) st k = Some x"
    show "\<exists>st'. same_groups st st' \<and> k st' = Some x"
    proof (cases "m r1 st k")
      case None
      with a have "m r2 st k = Some x" by simp
      from threadsD[OF 2 this] show ?thesis .
    next
      case (Some y)
      with a have "m r1 st k = Some x" by simp
      from threadsD[OF 1 this] show ?thesis .
    qed
  qed
next
  case (Star r)
  then have 1: "threads same_groups (m r)" by simp
  show ?case unfolding threads_def
  proof (intro allI impI)
    fix st :: mstate and k :: "mstate \<Rightarrow> mstate option" and x :: mstate
    assume "m (Star r) st k = Some x"
    then have "star_m (length (rest st)) (m r) st k = Some x" by simp
    then show "\<exists>st'. same_groups st st' \<and> k st' = Some x"
      by (rule star_m_threads[where Q = same_groups, rotated 3])
         (auto simp: same_groups_def 1)
  qed
next
  case (Group n r)
  then show ?case by simp
next
  case Bol
  show ?case unfolding threads_def by (auto simp: same_groups_def split: if_splits)
next
  case Eol
  show ?case unfolding threads_def by (auto simp: same_groups_def split: if_splits)
next
  case WordB
  show ?case unfolding threads_def by (auto simp: same_groups_def split: if_splits)
qed

text \<open>Leading white space: what \<^verbatim>\<open>(\s*)\<close> at the head of a pattern consumes.\<close>

definition skipped_space :: "mstate \<Rightarrow> mstate \<Rightarrow> bool" where
  "skipped_space st st' =
     (groups st' = groups st \<and> (\<exists>pre. rest st = pre @ rest st' \<and> (\<forall>c\<in>set pre. is_space c)))"

lemma Sp_threads: "threads skipped_space (m Sp)"
  unfolding threads_def
proof (intro allI impI)
  fix st :: mstate and k :: "mstate \<Rightarrow> mstate option" and x :: mstate
    assume a: "m Sp st k = Some x"
  show "\<exists>st'. skipped_space st st' \<and> k st' = Some x"
  proof (cases "rest st")
    case Nil
    with a show ?thesis by simp
  next
    case (Cons c cs)
    with a have sp: "is_space c" and k: "k (advance 1 st) = Some x"
      by (auto split: if_splits)
    from Cons sp have "skipped_space st (advance 1 st)"
      unfolding skipped_space_def advance_def by (auto intro: exI[of _ "[c]"])
    with k show ?thesis by blast
  qed
qed

lemma skipped_space_refl: "skipped_space st st"
  by (simp add: skipped_space_def)

lemma skipped_space_trans:
  assumes "skipped_space a b" "skipped_space b c"
  shows "skipped_space a c"
proof -
  from assms(1) obtain p1 where 1: "rest a = p1 @ rest b" "\<forall>x\<in>set p1. is_space x"
    and g1: "groups b = groups a" unfolding skipped_space_def by blast
  from assms(2) obtain p2 where 2: "rest b = p2 @ rest c" "\<forall>x\<in>set p2. is_space x"
    and g2: "groups c = groups b" unfolding skipped_space_def by blast
  from 1 2 have "rest a = (p1 @ p2) @ rest c" "\<forall>x\<in>set (p1 @ p2). is_space x" by auto
  with g1 g2 show ?thesis unfolding skipped_space_def by metis
qed

lemma Star_Sp_threads: "threads skipped_space (m (Star Sp))"
  unfolding threads_def
proof (intro allI impI)
  fix st :: mstate and k :: "mstate \<Rightarrow> mstate option" and x :: mstate
    assume "m (Star Sp) st k = Some x"
  then have "star_m (length (rest st)) (m Sp) st k = Some x" by simp
  then show "\<exists>st'. skipped_space st st' \<and> k st' = Some x"
  proof (rule star_m_threads[where Q = skipped_space, rotated 3])
    show "skipped_space st st" for st by (rule skipped_space_refl)
    show "skipped_space a b \<Longrightarrow> skipped_space b c \<Longrightarrow> skipped_space a c" for a b c
      by (rule skipped_space_trans)
    show "threads skipped_space (m Sp)" by (rule Sp_threads)
  qed
qed

lemma leading_space_group:
  assumes "no_groups r" "re_match (Seq (Group 1 (Star Sp)) r) s = Some ms"
  shows "\<forall>c\<in>set (grp ms 1). is_space c"
proof -
  let ?st0 = "\<lparr>prev = None, rest = s, groups = []\<rparr>"
  let ?K = "\<lambda>st'. m r (st'\<lparr>groups := (1, take (length (rest ?st0) - length (rest st')) (rest ?st0))
              # groups st'\<rparr>) Some"
  from assms(2) have "m (Star Sp) ?st0 ?K = Some ms" by (simp add: re_match_def)
  from threadsD[OF Star_Sp_threads this] obtain st1 where
    sk: "skipped_space ?st0 st1" and k: "?K st1 = Some ms" by blast
  from sk obtain pre where pre: "s = pre @ rest st1" "\<forall>c\<in>set pre. is_space c"
    and g: "groups st1 = []" unfolding skipped_space_def by auto
  from pre(1) have t: "take (length (rest ?st0) - length (rest st1)) (rest ?st0) = pre" by simp
  from k have "m r (st1\<lparr>groups := [(1, pre)]\<rparr>) Some = Some ms" unfolding t g by simp
  from threadsD[OF no_groups_threads[OF assms(1)] this]
  have "groups ms = [(1, pre)]" by (auto simp: same_groups_def)
  then have "grp ms 1 = pre" by (simp add: grp_def)
  with pre(2) show ?thesis by simp
qed

lemma G_IF_RE_indent:
  assumes "re_match (G_IF_RE g) line = Some ms"
  shows "\<forall>c\<in>set (grp ms 1). is_space c"
proof -
  have "G_IF_RE g = Seq (Group 1 (Star Sp))
      (seqs [Lit ''if'', Star Sp, Lit ''('', Star Sp, Lit g, Star Sp, Lit '')''])"
    by (simp add: G_IF_RE_def)
  moreover have "no_groups (seqs [Lit ''if'', Star Sp, Lit ''('', Star Sp, Lit g, Star Sp, Lit '')''])"
    by simp
  ultimately show ?thesis using assms leading_space_group by metis
qed

section \<open>Stripped lines through the rewriter\<close>

definition strips :: "string list \<Rightarrow> string set" where
  "strips ls = py_strip ` set ls"

lemma strips_mono: "set xs \<subseteq> set ys \<Longrightarrow> strips xs \<subseteq> strips ys"
  unfolding strips_def by blast

lemma strips_append: "strips (xs @ ys) = strips xs \<union> strips ys"
  unfolding strips_def by auto

lemma py_strip_leading:
  assumes "\<forall>c\<in>set ws. is_space c"
  shows "py_strip (ws @ s) = py_strip s"
proof -
  from assms have "dropWhile is_space (ws @ s) = dropWhile is_space s"
    by (intro dropWhile_append2) simp
  then show ?thesis by (simp add: py_strip_def)
qed

lemma is_space_blank: "is_space (CHR '' '')"
  by (simp add: is_space_def)

lemma reindent_strip:
  assumes "\<forall>c\<in>set indent. is_space c"
  shows "py_strip (reindent indent e) = py_strip e"
proof -
  have drop_pre: "py_strip (indent @ r) = py_strip ((indent @ pad) @ r)"
    if "\<forall>c\<in>set pad. is_space c" for pad r
  proof -
    from assms that have "\<forall>c\<in>set (indent @ pad). is_space c" by auto
    then have "py_strip ((indent @ pad) @ r) = py_strip r" by (rule py_strip_leading)
    moreover from assms have "py_strip (indent @ r) = py_strip r" by (rule py_strip_leading)
    ultimately show ?thesis by simp
  qed
  show ?thesis
  proof (cases "prefix (indent @ ''    '') e")
    case True
    then obtain r where e: "e = (indent @ ''    '') @ r" by (auto elim: prefixE)
    then have "drop (length indent + 4) e = r" by simp
    with True have "reindent indent e = indent @ r" by (simp add: reindent_def)
    moreover have "py_strip (indent @ r) = py_strip ((indent @ ''    '') @ r)"
      by (rule drop_pre) (simp add: is_space_blank)
    ultimately show ?thesis unfolding e by simp
  next
    case False
    note f = False
    show ?thesis
    proof (cases "prefix (indent @ ''  '') e")
      case True
      then obtain r where e: "e = (indent @ ''  '') @ r" by (auto elim: prefixE)
      then have "drop (length indent + 2) e = r" by simp
      with True f have "reindent indent e = indent @ r" by (simp add: reindent_def)
      moreover have "py_strip (indent @ r) = py_strip ((indent @ ''  '') @ r)"
        by (rule drop_pre) (simp add: is_space_blank)
      ultimately show ?thesis unfolding e by simp
    next
      case False
      with f show ?thesis by (simp add: reindent_def)
    qed
  qed
qed

lemma set_slice: "set (slice xs a b) \<subseteq> set xs"
  unfolding slice_def using set_take_subset set_drop_subset by fast

lemma strips_reindent_slice:
  assumes "\<forall>c\<in>set indent. is_space c"
  shows "strips (map (reindent indent) (slice lines a b)) \<subseteq> strips lines"
proof -
  have "strips (map (reindent indent) (slice lines a b)) = strips (slice lines a b)"
    unfolding strips_def using reindent_strip[OF assms] by (auto simp: image_iff)
  also have "\<dots> \<subseteq> strips lines" by (rule strips_mono[OF set_slice])
  finally show ?thesis .
qed

lemma strips_single: "i < length lines \<Longrightarrow> strips [lines ! i] \<subseteq> strips lines"
  by (simp add: strips_def)

lemma strips_Nil: "strips [] \<subseteq> strips lines"
  by (simp add: strips_def)

lemma g_if_block_indent:
  assumes "g_if_block lines func_end g i = Some (indent, e)"
  shows "\<forall>c\<in>set indent. is_space c"
proof (cases "re_match (G_IF_RE g) (lines ! i)")
  case None
  with assms show ?thesis by (simp add: g_if_block_def)
next
  case (Some ms)
  with assms have "indent = grp ms 1"
    by (cases "block_within lines func_end i") (simp_all add: g_if_block_def)
  with G_IF_RE_indent[OF Some] show ?thesis by simp
qed

lemma sgd_else_step_strips:
  assumes "sgd_else_step lines func_end g indent if_block_end = Some (out, v, i')"
    and "\<forall>c\<in>set indent. is_space c"
  shows "strips out \<subseteq> strips lines"
proof (cases "skip_blank lines func_end (if_block_end + 1)")
  case None
  with assms(1) show ?thesis by (simp add: sgd_else_step_def)
next
  case (Some next_i)
  note sb = Some
  show ?thesis
  proof (cases "else_block lines func_end next_i")
    case None
    with assms(1) sb have "out = []" by (simp add: sgd_else_step_def)
    then show ?thesis by (simp add: strips_Nil)
  next
    case (Some else_block_end)
    with assms(1) sb have "out = map (reindent indent)
        (slice lines (find_else_open lines next_i else_block_end + 1) else_block_end)"
      by (simp add: sgd_else_step_def Let_def)
    then show ?thesis using strips_reindent_slice[OF assms(2)] by simp
  qed
qed

lemma sgd_bound_step_strips:
  assumes "sgd_bound_step lines func_end g i = Some (out, v, i')" "i < length lines"
  shows "strips out \<subseteq> strips lines"
proof (cases "g_if_block lines func_end g i")
  case (Some p)
  obtain indent if_block_end where p: "p = (indent, if_block_end)" by (cases p) auto
  from assms(1) Some p
  have "sgd_else_step lines func_end g indent if_block_end = Some (out, v, i')"
    by (simp add: sgd_bound_step_def Let_def)
  moreover from Some p have "\<forall>c\<in>set indent. is_space c" using g_if_block_indent by blast
  ultimately show ?thesis by (rule sgd_else_step_strips)
next
  case None
  note first = None
  show ?thesis
  proof (cases "if matches (G_AND_RE g) (lines ! i) then block_within lines func_end i else None")
    case (Some block_end)
    with assms(1) first have "out = []" by (simp add: sgd_bound_step_def Let_def)
    then show ?thesis by (simp add: strips_Nil)
  next
    case None
    note second = None
    show ?thesis
    proof (cases "if matches (AND_G_RE g) (lines ! i) then block_within lines func_end i else None")
      case (Some block_end)
      with assms(1) first second have "out = []" by (simp add: sgd_bound_step_def Let_def)
      then show ?thesis by (simp add: strips_Nil)
    next
      case None
      with assms(1) first second have "out = [] \<or> out = [lines ! i]"
        by (auto simp: sgd_bound_step_def Let_def split: if_splits)
      with assms(2) show ?thesis using strips_Nil strips_single by blast
    qed
  qed
qed

lemma sgd_step_strips:
  assumes "sgd_step lines func_end v i = Some (out, v', i')" "i < length lines"
  shows "strips out \<subseteq> strips lines"
proof (cases "re_match GUI_DATA_ASSIGN_RE (lines ! i)")
  case (Some a)
  with assms(1) have "out = []" by (simp add: sgd_step_def Let_def)
  then show ?thesis by (simp add: strips_Nil)
next
  case None
  note no_assign = None
  show ?thesis
  proof (cases "matches CAST_FIELD_RE (lines ! i) \<or> matches RAW_IF_ONELINE_RE (lines ! i)")
    case True
    with assms(1) no_assign have "out = []" by (auto simp: sgd_step_def Let_def split: if_splits)
    then show ?thesis by (simp add: strips_Nil)
  next
    case False
    note no_line = False
    show ?thesis
    proof (cases "if matches RAW_IF_RE (lines ! i) then block_within lines func_end i else None")
      case (Some block_end)
      with assms(1) no_assign no_line have "out = []" by (simp add: sgd_step_def Let_def)
      then show ?thesis by (simp add: strips_Nil)
    next
      case None
      show ?thesis
      proof (cases "case v of None \<Rightarrow> True | Some g \<Rightarrow> g = []")
        case True
        with assms(1) no_assign no_line None have "out = [lines ! i]"
          by (auto simp: sgd_step_def Let_def split: option.splits if_splits)
        with assms(2) show ?thesis by (simp add: strips_single)
      next
        case False
        then obtain g where g: "v = Some g" "g \<noteq> []" by (cases v) auto
        with assms(1) no_assign no_line None
        have "sgd_bound_step lines func_end g i = Some (out, v', i')"
          by (simp add: sgd_step_def Let_def)
        then show ?thesis using assms(2) by (rule sgd_bound_step_strips)
      qed
    qed
  qed
qed

lemma sgd_loop_strips:
  "sgd_loop lines func_end v i = Some out \<Longrightarrow> strips out \<subseteq> strips lines"
proof (induction lines func_end v i arbitrary: out rule: sgd_loop.induct)
  case (1 lines func_end v i)
  show ?case
  proof (cases "i \<le> func_end")
    case False
    with "1.prems" have "out = []" by (subst (asm) sgd_loop.simps) simp
    then show ?thesis by (simp add: strips_Nil)
  next
    case True
    note le = True
    show ?thesis
    proof (cases "i < length lines")
      case False
      with "1.prems" le show ?thesis by (subst (asm) sgd_loop.simps) simp
    next
      case True
      note lt = True
      show ?thesis
      proof (cases "sgd_step lines func_end v i")
        case None
        with "1.prems" le lt show ?thesis by (subst (asm) sgd_loop.simps) simp
      next
        case (Some r)
        obtain o1 v' i' where r: "r = (o1, v', i')" by (cases r) auto
        show ?thesis
        proof (cases "sgd_loop lines func_end v' i'")
          case None
          with "1.prems" le lt Some r show ?thesis by (subst (asm) sgd_loop.simps) simp
        next
          case (Some result)
          with "1.prems" le lt \<open>sgd_step lines func_end v i = Some r\<close> r
          have out: "out = o1 @ result" by (subst (asm) sgd_loop.simps) simp
          from "1.IH"[OF le lt \<open>sgd_step lines func_end v i = Some r\<close>, of result] Some r
          have "strips result \<subseteq> strips lines" by simp
          moreover from \<open>sgd_step lines func_end v i = Some r\<close> r lt
          have "strips o1 \<subseteq> strips lines" using sgd_step_strips by blast
          ultimately show ?thesis unfolding out strips_append by blast
        qed
      qed
    qed
  qed
qed

lemma strip_funcs_strips:
  "strip_funcs fs ls = Some ls' \<Longrightarrow> strips ls' \<subseteq> strips ls"
proof (induction fs arbitrary: ls)
  case Nil
  then show ?case by simp
next
  case (Cons f fs)
  obtain name start en where f: "f = (name, start, en)" by (cases f) auto
  show ?case
  proof (cases "strip_gui_data_in_function ls start en")
    case None
    with Cons.prems f show ?thesis by simp
  next
    case (Some body)
    with Cons.prems f
    have "strip_funcs fs (take start ls @ body @ drop (en + 1) ls) = Some ls'" by simp
    from Cons.IH[OF this]
    have "strips ls' \<subseteq> strips (take start ls @ body @ drop (en + 1) ls)" .
    moreover from Some have "strips body \<subseteq> strips ls"
      unfolding strip_gui_data_in_function_def by (rule sgd_loop_strips)
    moreover have "strips (take start ls) \<subseteq> strips ls"
      by (rule strips_mono[OF set_take_subset])
    moreover have "strips (drop (en + 1) ls) \<subseteq> strips ls"
      by (rule strips_mono[OF set_drop_subset])
    ultimately show ?thesis unfolding strips_append by blast
  qed
qed

lemma pass4_strips: "pass4 ls = Some ls' \<Longrightarrow> strips ls' \<subseteq> strips ls"
  unfolding pass4_def Let_def by (rule strip_funcs_strips)

section \<open>The rewriter reads no line past the end\<close>

lemma skip_blank_total:
  "func_end < length lines \<Longrightarrow> skip_blank lines func_end n \<noteq> None"
proof (induction lines func_end n rule: skip_blank.induct)
  case (1 lines func_end next_i)
  show ?case
  proof (cases "next_i \<le> func_end")
    case False
    then show ?thesis by (subst skip_blank.simps) simp
  next
    case True
    with "1.prems" have lt: "next_i < length lines" by simp
    show ?thesis
    proof (cases "py_strip (lines ! next_i) = []")
      case False
      with True lt show ?thesis by (subst skip_blank.simps) simp
    next
      case b: True
      from "1.IH"[OF True lt b "1.prems"] True lt b show ?thesis
        by (subst skip_blank.simps) simp
    qed
  qed
qed

lemma sgd_else_step_total:
  assumes "func_end < length lines"
  shows "sgd_else_step lines func_end g indent e \<noteq> None"
proof (cases "skip_blank lines func_end (e + 1)")
  case None
  with skip_blank_total[OF assms, of "e + 1"] show ?thesis by blast
next
  case (Some next_i)
  then show ?thesis
    by (cases "else_block lines func_end next_i") (simp_all add: sgd_else_step_def Let_def)
qed

lemma sgd_bound_step_total:
  assumes "func_end < length lines"
  shows "sgd_bound_step lines func_end g i \<noteq> None"
proof (cases "g_if_block lines func_end g i")
  case (Some p)
  obtain indent e where "p = (indent, e)" by (cases p) auto
  with Some sgd_else_step_total[OF assms] show ?thesis
    by (simp add: sgd_bound_step_def Let_def)
next
  case None
  note first = None
  show ?thesis
  proof (cases "if matches (G_AND_RE g) (lines ! i) then block_within lines func_end i else None")
    case (Some a)
    with first show ?thesis by (simp add: sgd_bound_step_def Let_def)
  next
    case None
    note second = None
    show ?thesis
    proof (cases "if matches (AND_G_RE g) (lines ! i) then block_within lines func_end i else None")
      case (Some a)
      with first second show ?thesis by (simp add: sgd_bound_step_def Let_def)
    next
      case None
      with first second show ?thesis by (simp add: sgd_bound_step_def Let_def)
    qed
  qed
qed

lemma sgd_step_total:
  assumes "func_end < length lines"
  shows "sgd_step lines func_end v i \<noteq> None"
proof (cases "re_match GUI_DATA_ASSIGN_RE (lines ! i)")
  case (Some a)
  then show ?thesis by (simp add: sgd_step_def Let_def)
next
  case None
  note no_assign = None
  show ?thesis
  proof (cases "matches CAST_FIELD_RE (lines ! i) \<or> matches RAW_IF_ONELINE_RE (lines ! i)")
    case True
    with no_assign show ?thesis by (auto simp: sgd_step_def Let_def)
  next
    case False
    note no_line = False
    show ?thesis
    proof (cases "if matches RAW_IF_RE (lines ! i) then block_within lines func_end i else None")
      case (Some a)
      with no_assign no_line show ?thesis by (simp add: sgd_step_def Let_def)
    next
      case None
      show ?thesis
      proof (cases "case v of None \<Rightarrow> True | Some g \<Rightarrow> g = []")
        case True
        with no_assign no_line None show ?thesis
          by (auto simp: sgd_step_def Let_def split: option.splits)
      next
        case False
        then obtain g where "v = Some g" "g \<noteq> []" by (cases v) auto
        with no_assign no_line None sgd_bound_step_total[OF assms] show ?thesis
          by (simp add: sgd_step_def Let_def)
      qed
    qed
  qed
qed

lemma sgd_loop_total:
  "func_end < length lines \<Longrightarrow> sgd_loop lines func_end v i \<noteq> None"
proof (induction lines func_end v i rule: sgd_loop.induct)
  case (1 lines func_end v i)
  show ?case
  proof (cases "i \<le> func_end")
    case False
    then show ?thesis by (subst sgd_loop.simps) simp
  next
    case True
    with "1.prems" have lt: "i < length lines" by simp
    from sgd_step_total[OF "1.prems"] obtain r where r: "sgd_step lines func_end v i = Some r"
      by blast
    from "1.IH"[OF True lt r "1.prems"]
    obtain result where "sgd_loop lines func_end (fst (snd r)) (snd (snd r)) = Some result"
      by blast
    with True lt r show ?thesis by (subst sgd_loop.simps) simp
  qed
qed

lemma strip_gui_data_in_function_total:
  "func_end < length lines \<Longrightarrow> strip_gui_data_in_function lines func_start func_end \<noteq> None"
  unfolding strip_gui_data_in_function_def by (rule sgd_loop_total)

text \<open>Spans taken from the last to the first: each ends before the one handled
  before it begins, the first before the end of the list.\<close>

fun spans_below :: "nat \<Rightarrow> (string \<times> nat \<times> nat) list \<Rightarrow> bool" where
  "spans_below b [] = True"
| "spans_below b ((name, start, en) # fs) = (start \<le> en \<and> en < b \<and> spans_below start fs)"

lemma spans_below_mono: "spans_below b fs \<Longrightarrow> b \<le> b' \<Longrightarrow> spans_below b' fs"
  by (cases fs) auto

lemma strip_funcs_total:
  "spans_below (length ls) fs \<Longrightarrow> strip_funcs fs ls \<noteq> None"
proof (induction fs arbitrary: ls)
  case Nil
  show ?case by simp
next
  case (Cons f fs)
  obtain name start en where f: "f = (name, start, en)" by (cases f) auto
  from Cons.prems f have b: "start \<le> en" "en < length ls" "spans_below start fs" by simp_all
  from strip_gui_data_in_function_total[OF b(2)] obtain body where
    body: "strip_gui_data_in_function ls start en = Some body" by blast
  let ?ls = "take start ls @ body @ drop (en + 1) ls"
  from b have "start \<le> length ?ls" by simp
  with b(3) have "spans_below (length ?ls) fs" by (rule spans_below_mono)
  from Cons.IH[OF this] body f show ?case by simp
qed

section \<open>Spans of the function map\<close>

text \<open>The spans of a map built up to line \<open>b\<close>: each ends before \<open>b\<close> and no two
  overlap.\<close>

definition span_start :: "string \<times> span \<Rightarrow> nat" where
  "span_start x = fst (snd x)"

definition span_end :: "string \<times> span \<Rightarrow> nat" where
  "span_end x = fst (snd (snd x))"

definition ordered_spans :: "nat \<Rightarrow> func_map \<Rightarrow> bool" where
  "ordered_spans b fm =
     ((\<forall>x\<in>set fm. span_start x \<le> span_end x \<and> span_end x < b)
      \<and> (\<forall>x\<in>set fm. \<forall>y\<in>set fm. x \<noteq> y \<longrightarrow> span_end x < span_start y \<or> span_end y < span_start x))"

lemma ordered_spans_mono: "ordered_spans b fm \<Longrightarrow> b \<le> b' \<Longrightarrow> ordered_spans b' fm"
  unfolding ordered_spans_def by fastforce

lemma ordered_spans_update:
  assumes "ordered_spans i fm" "i \<le> e"
  shows "ordered_spans (e + 1) (AList.update n (i, e, st) fm)"
proof -
  let ?new = "(n, i, e, st)"
  have sub: "set (AList.update n (i, e, st) fm) \<subseteq> insert ?new (set fm)"
    by (rule set_update_subset)
  have new: "span_start ?new = i" "span_end ?new = e"
    by (simp_all add: span_start_def span_end_def)
  from assms(1) have old: "\<And>x. x \<in> set fm \<Longrightarrow> span_start x \<le> span_end x \<and> span_end x < i"
    and dis: "\<And>x y. x \<in> set fm \<Longrightarrow> y \<in> set fm \<Longrightarrow> x \<noteq> y
        \<Longrightarrow> span_end x < span_start y \<or> span_end y < span_start x"
    unfolding ordered_spans_def by blast+
  show ?thesis unfolding ordered_spans_def
  proof (intro conjI ballI impI)
    fix x assume "x \<in> set (AList.update n (i, e, st) fm)"
    with sub have "x = ?new \<or> x \<in> set fm" by blast
    then show "span_start x \<le> span_end x"
    proof
      assume "x = ?new" with new assms(2) show ?thesis by simp
    next
      assume "x \<in> set fm"
      from old[OF this] show ?thesis by simp
    qed
  next
    fix x assume "x \<in> set (AList.update n (i, e, st) fm)"
    with sub have "x = ?new \<or> x \<in> set fm" by blast
    then show "span_end x < e + 1"
    proof
      assume "x = ?new" with new show ?thesis by simp
    next
      assume "x \<in> set fm"
      from old[OF this] assms(2) show ?thesis by simp
    qed
  next
    fix x y assume "x \<in> set (AList.update n (i, e, st) fm)"
      and "y \<in> set (AList.update n (i, e, st) fm)" and ne: "x \<noteq> y"
    with sub have x: "x = ?new \<or> x \<in> set fm" and y: "y = ?new \<or> y \<in> set fm" by blast+
    show "span_end x < span_start y \<or> span_end y < span_start x"
    proof (cases "x = ?new")
      case True
      with ne y have "y \<in> set fm" by blast
      from old[OF this] True new show ?thesis by simp
    next
      case False
      with x have xin: "x \<in> set fm" by blast
      show ?thesis
      proof (cases "y = ?new")
        case True
        from old[OF xin] True new show ?thesis by simp
      next
        case False
        with y have "y \<in> set fm" by blast
        from dis[OF xin this ne] show ?thesis .
      qed
    qed
  qed
qed

lemma bfm_step_ordered:
  assumes "i < length lines" "ordered_spans i fm" "distinct (map fst fm)"
  shows "fst (bfm_step lines i fm) \<le> length lines
     \<and> ordered_spans (fst (bfm_step lines i fm)) (snd (bfm_step lines i fm))
     \<and> distinct (map fst (snd (bfm_step lines i fm)))"
  using bfm_step_cases[of lines i fm]
proof (elim disjE exE conjE)
  assume b: "bfm_step lines i fm = (i + 1, fm)"
  from assms(2) have "ordered_spans (i + 1) fm" by (rule ordered_spans_mono) simp
  with assms b show ?thesis by simp
next
  fix n st e
  assume f: "find_brace_block_end lines i = Some e"
    and b: "bfm_step lines i fm = (e + 1, AList.update n (i, e, st) fm)"
  from find_brace_block_end_bounds[OF f] have e: "i \<le> e" "e < length lines" by simp_all
  from ordered_spans_update[OF assms(2) e(1)]
  have "ordered_spans (e + 1) (AList.update n (i, e, st) fm)" .
  moreover from assms(3) have "distinct (map fst (AList.update n (i, e, st) fm))"
    by (rule distinct_update)
  ultimately show ?thesis using b e by simp
qed

lemma bfm_loop_ordered:
  "i \<le> length lines \<Longrightarrow> ordered_spans i fm \<Longrightarrow> distinct (map fst fm) \<Longrightarrow>
     ordered_spans (length lines) (bfm_loop lines i fm) \<and> distinct (map fst (bfm_loop lines i fm))"
proof (induction lines i fm rule: bfm_loop.induct)
  case (1 lines i fm)
  show ?case
  proof (cases "i < length lines")
    case False
    with "1.prems" have "i = length lines" by simp
    with "1.prems" False show ?thesis by (subst (1 2) bfm_loop.simps) simp
  next
    case True
    note s = bfm_step_ordered[OF True "1.prems"(2,3)]
    from "1.IH"[OF True refl] s
    have "ordered_spans (length lines)
            (bfm_loop lines (fst (bfm_step lines i fm)) (snd (bfm_step lines i fm)))
        \<and> distinct (map fst (bfm_loop lines (fst (bfm_step lines i fm)) (snd (bfm_step lines i fm))))"
      by blast
    with True show ?thesis by (subst (1 2) bfm_loop.simps) (simp add: Let_def)
  qed
qed

lemma build_function_map_ordered:
  "ordered_spans (length lines) (build_function_map lines)
   \<and> distinct (map fst (build_function_map lines))"
  unfolding build_function_map_def
  by (rule bfm_loop_ordered) (simp_all add: ordered_spans_def)

section \<open>Pass 4 on the spans of the kept map\<close>

lemma funcs_to_strip_loop_entries:
  "f \<in> set (funcs_to_strip_loop ls fm) \<Longrightarrow>
     \<exists>st. (fst f, fst (snd f), snd (snd f), st) \<in> set fm"
proof (induction fm)
  case Nil
  then show ?case by simp
next
  case (Cons item fm)
  obtain name start en is_static where item: "item = (name, (start, en, is_static))"
    by (cases item) auto
  from Cons.prems item have "f = (name, start, en) \<or> f \<in> set (funcs_to_strip_loop ls fm)"
    by (auto simp: Let_def split: if_splits)
  then show ?case
  proof
    assume "f = (name, start, en)"
    with item show ?thesis by auto
  next
    assume "f \<in> set (funcs_to_strip_loop ls fm)"
    from Cons.IH[OF this] show ?thesis by auto
  qed
qed

lemma funcs_to_strip_loop_distinct:
  "distinct (map fst fm) \<Longrightarrow> distinct (map fst (funcs_to_strip_loop ls fm))"
proof (induction fm)
  case Nil
  show ?case by simp
next
  case (Cons item fm)
  obtain name start en is_static where item: "item = (name, (start, en, is_static))"
    by (cases item) auto
  from Cons.prems item have d: "distinct (map fst fm)" and n: "name \<notin> fst ` set fm" by simp_all
  have "name \<notin> fst ` set (funcs_to_strip_loop ls fm)"
  proof
    assume "name \<in> fst ` set (funcs_to_strip_loop ls fm)"
    then obtain f where "f \<in> set (funcs_to_strip_loop ls fm)" "fst f = name" by auto
    from funcs_to_strip_loop_entries[OF this(1)] this(2) n show False by force
  qed
  with Cons.IH[OF d] item show ?case by (simp add: Let_def)
qed

lemma spans_below_sorted:
  assumes "sorted_wrt (\<lambda>x y. fst (snd y) \<le> fst (snd x)) fs"
    and "distinct fs"
    and "\<forall>x\<in>set fs. fst (snd x) \<le> snd (snd x) \<and> snd (snd x) < b"
    and "\<forall>x\<in>set fs. \<forall>y\<in>set fs. x \<noteq> y \<longrightarrow>
           snd (snd x) < fst (snd y) \<or> snd (snd y) < fst (snd x)"
  shows "spans_below b fs"
  using assms
proof (induction fs arbitrary: b)
  case Nil
  show ?case by simp
next
  case (Cons f fs)
  obtain name start en where f: "f = (name, start, en)" by (cases f) auto
  from Cons.prems(3) f have here: "start \<le> en" "en < b" by simp_all
  have below: "\<forall>x\<in>set fs. fst (snd x) \<le> snd (snd x) \<and> snd (snd x) < start"
  proof
    fix x assume x: "x \<in> set fs"
    with Cons.prems(2) have ne: "f \<noteq> x" by auto
    from x Cons.prems(1) have le: "fst (snd x) \<le> fst (snd f)" by simp
    from x Cons.prems(3) have se: "fst (snd x) \<le> snd (snd x)" by simp
    from Cons.prems(4) x ne
    have "snd (snd f) < fst (snd x) \<or> snd (snd x) < fst (snd f)" by simp
    with le se here f show "fst (snd x) \<le> snd (snd x) \<and> snd (snd x) < start" by auto
  qed
  from Cons.prems have "sorted_wrt (\<lambda>x y. fst (snd y) \<le> fst (snd x)) fs" "distinct fs"
    "\<forall>x\<in>set fs. \<forall>y\<in>set fs. x \<noteq> y \<longrightarrow>
           snd (snd x) < fst (snd y) \<or> snd (snd y) < fst (snd x)" by simp_all
  from Cons.IH[OF this(1,2) below this(3)] here f show ?case by simp
qed

lemma sort_by_start_desc_props:
  "set (sort_by_start_desc fs) = set fs
   \<and> (distinct fs \<longrightarrow> distinct (sort_by_start_desc fs))
   \<and> sorted_wrt (\<lambda>x y. fst (snd y) \<le> fst (snd x)) (sort_by_start_desc fs)"
proof -
  have "sorted (map (\<lambda>x. fst (snd x)) (sort_key (\<lambda>x. fst (snd x)) (rev fs)))"
    by (rule sorted_sort_key)
  then have "sorted_wrt (\<lambda>x y. fst (snd x) \<le> fst (snd y)) (sort_key (\<lambda>x. fst (snd x)) (rev fs))"
    by (simp add: sorted_wrt_map)
  then have "sorted_wrt (\<lambda>x y. fst (snd y) \<le> fst (snd x)) (sort_by_start_desc fs)"
    unfolding sort_by_start_desc_def by (simp add: sorted_wrt_rev)
  then show ?thesis by (simp add: sort_by_start_desc_def)
qed

lemma pass4_total: "pass4 ls \<noteq> None"
proof -
  let ?fm = "build_function_map ls"
  let ?F = "funcs_to_strip_loop ls ?fm"
  let ?S = "sort_by_start_desc ?F"
  note o = build_function_map_ordered[of ls]
  from o have d: "distinct (map fst ?F)" by (intro funcs_to_strip_loop_distinct) simp
  then have dF: "distinct ?F" by (rule distinct_map[THEN iffD1, THEN conjunct1])
  note sp = sort_by_start_desc_props[of ?F]
  have ent: "\<exists>st. (fst f, fst (snd f), snd (snd f), st) \<in> set ?fm" if "f \<in> set ?S" for f
    using that sp funcs_to_strip_loop_entries by blast
  have names: "fst x \<noteq> fst y" if "x \<in> set ?S" "y \<in> set ?S" "x \<noteq> y" for x y
  proof
    assume "fst x = fst y"
    moreover from that sp have "x \<in> set ?F" "y \<in> set ?F" by simp_all
    ultimately have "x = y" using d by (meson distinct_map inj_onD)
    with that(3) show False by simp
  qed
  have 3: "\<forall>x\<in>set ?S. fst (snd x) \<le> snd (snd x) \<and> snd (snd x) < length ls"
  proof
    fix x assume "x \<in> set ?S"
    from ent[OF this] obtain st where "(fst x, fst (snd x), snd (snd x), st) \<in> set ?fm" by blast
    with o show "fst (snd x) \<le> snd (snd x) \<and> snd (snd x) < length ls"
      unfolding ordered_spans_def span_start_def span_end_def by fastforce
  qed
  have 4: "\<forall>x\<in>set ?S. \<forall>y\<in>set ?S. x \<noteq> y \<longrightarrow>
           snd (snd x) < fst (snd y) \<or> snd (snd y) < fst (snd x)"
  proof (intro ballI impI)
    fix x y assume x: "x \<in> set ?S" and y: "y \<in> set ?S" and ne: "x \<noteq> y"
    from ent[OF x] obtain sx where ex: "(fst x, fst (snd x), snd (snd x), sx) \<in> set ?fm" by blast
    from ent[OF y] obtain sy where ey: "(fst y, fst (snd y), snd (snd y), sy) \<in> set ?fm" by blast
    from names[OF x y ne]
    have "(fst x, fst (snd x), snd (snd x), sx) \<noteq> (fst y, fst (snd y), snd (snd y), sy)" by simp
    with o ex ey show "snd (snd x) < fst (snd y) \<or> snd (snd y) < fst (snd x)"
      unfolding ordered_spans_def span_start_def span_end_def by fastforce
  qed
  from sp dF have "distinct ?S" by simp
  with sp have "spans_below (length ls) ?S" using 3 4 by (intro spans_below_sorted) simp_all
  then show ?thesis unfolding pass4_def Let_def by (rule strip_funcs_total)
qed

text \<open>The passes between reading and writing always return: no index is read
  past the end of the list.\<close>

lemma strip_iop_lines_total: "\<exists>final R. strip_iop_lines lines = Some (final, R)"
proof -
  let ?T = "find_all_functions_to_remove lines (build_function_map lines)"
  from pass4_total obtain rewritten where
    "pass4 (remove_forward_declarations (pass2_loop lines ?T 0) ?T) = Some rewritten" by blast
  then show ?thesis by (simp add: strip_iop_lines_def Let_def)
qed
section \<open>Protected functions (C1)\<close>












subsection \<open>The protected set\<close>






















section \<open>Order of examination (C2)\<close>

text \<open>Two association lists are the same dictionary when they hold the same
  entries under distinct keys; they may differ in the order of the entries.\<close>

definition same_dict :: "func_map \<Rightarrow> func_map \<Rightarrow> bool" where
  "same_dict fm' fm = (set fm' = set fm \<and> distinct (map fst fm') \<and> distinct (map fst fm))"

text \<open>
  C2. The removal set does not depend on the order in which the functions are
  examined: when each of the four phases walks the same dictionary in an order of
  its own, the final set is the one \<open>find_all_functions_to_remove\<close> computes in
  the order of the map; in particular the classifier gives the same set on every
  reordering of the map. (The lines of the source are an input of every phase.)
\<close>

theorem removal_set_order_independent:
  assumes "same_dict fm1 fm" "same_dict fm2 fm" "same_dict fm3 fm" "same_dict fm4 fm"
  shows "phase4_while lines fm4 (phase3 lines fm3 (phase2_while lines fm2 (phase1 fm1)))
           = find_all_functions_to_remove lines fm
         \<and> find_all_functions_to_remove lines fm1 = find_all_functions_to_remove lines fm"
proof -
  from assms have d: "distinct (map fst fm)"
    and s1: "set fm1 = set fm" "distinct (map fst fm1)"
    and s2: "set fm2 = set fm" "distinct (map fst fm2)"
    and s3: "set fm3 = set fm" "distinct (map fst fm3)"
    and s4: "set fm4 = set fm" "distinct (map fst fm4)"
    unfolding same_dict_def by blast+
  have p1: "phase1 fm1 = phase1 fm" using s1(1) by (rule phase1_order_free)
  have p2: "phase2_while lines fm2 R = phase2_while lines fm R" for R
    using d s2(2) s2(1) by (rule phase2_while_order_free)
  have p3: "phase3 lines fm3 R = phase3 lines fm R" for R
    using d s3(2) s3(1) by (rule phase3_order_free)
  have p4: "phase4_while lines fm4 R = phase4_while lines fm R" for R
    using d s4(2) s4(1) by (rule phase4_while_order_free)
  have q2: "phase2_while lines fm1 R = phase2_while lines fm R" for R
    using d s1(2) s1(1) by (rule phase2_while_order_free)
  have q3: "phase3 lines fm1 R = phase3 lines fm R" for R
    using d s1(2) s1(1) by (rule phase3_order_free)
  have q4: "phase4_while lines fm1 R = phase4_while lines fm R" for R
    using d s1(2) s1(1) by (rule phase4_while_order_free)
  have a: "phase4_while lines fm4 (phase3 lines fm3 (phase2_while lines fm2 (phase1 fm1)))
           = find_all_functions_to_remove lines fm"
    unfolding find_all_functions_to_remove_def p1 p2 p3 p4 ..
  have b: "find_all_functions_to_remove lines fm1 = find_all_functions_to_remove lines fm"
    unfolding find_all_functions_to_remove_def p1 q2 q3 q4 ..
  from a b show ?thesis ..
qed

definition order_lines :: "string list" where
  "order_lines = map (\<lambda>l. l @ [NL])
     [''static void helper(void)'', ''{'', ''  GtkWidget *w;'', ''}'',
      ''void gui_update(void)'', ''{'', ''  helper();'', ''}'',
      ''void process(void)'', ''{'', ''}'']"

definition order_map :: func_map where
  "order_map = [(''helper'', 0, 3, True), (''gui_update'', 4, 7, False), (''process'', 8, 10, False)]"

theorem removal_set_order_independent_witness:
  "same_dict (rev order_map) order_map
   \<and> build_function_map order_lines = order_map
   \<and> phase4_while order_lines (rev order_map)
        (phase3 order_lines order_map
          (phase2_while order_lines (rev order_map) (phase1 order_map)))
       = find_all_functions_to_remove order_lines order_map
   \<and> find_all_functions_to_remove order_lines (rev order_map)
       = find_all_functions_to_remove order_lines order_map"
proof -
  have r: "same_dict (rev order_map) order_map"
    unfolding same_dict_def order_map_def by (simp add: insert_commute)
  have s: "same_dict order_map order_map"
    unfolding same_dict_def order_map_def by simp
  have b: "build_function_map order_lines = order_map" by code_simp
  note t = removal_set_order_independent[OF s r s r, of order_lines]
  note u = removal_set_order_independent[OF r r r r, of order_lines]
  from r b t[THEN conjunct1] u[THEN conjunct2] show ?thesis by (intro conjI)
qed

section \<open>Growth of the removal set (C3)\<close>

text \<open>
  C3. The removal set only grows: what phase 1 seeds is in the set after phase 2,
  that is in the set after phase 3, that is in the set after phase 4 (the result
  of the classifier), and the orphan sweep after assembly only adds to the set it
  is given; so the set reported by a run contains the classifier's set.
\<close>

theorem removal_set_only_grows:
  "phase1 fm \<subseteq> phase2_while lines fm (phase1 fm)
   \<and> phase2_while lines fm (phase1 fm) \<subseteq> phase3 lines fm (phase2_while lines fm (phase1 fm))
   \<and> phase3 lines fm (phase2_while lines fm (phase1 fm)) \<subseteq> find_all_functions_to_remove lines fm
   \<and> to_remove \<subseteq> snd (pass5 output_lines to_remove)
   \<and> (strip_iop_lines lines = Some (final, R)
        \<longrightarrow> find_all_functions_to_remove lines (build_function_map lines) \<subseteq> R)"
proof -
  have 5: "strip_iop_lines lines = Some (final, R)
      \<longrightarrow> find_all_functions_to_remove lines (build_function_map lines) \<subseteq> R"
  proof
    assume "strip_iop_lines lines = Some (final, R)"
    from strip_iop_lines_SomeD[OF this] obtain rewritten where
      "R = snd (pass5 (pass4b rewritten)
                  (find_all_functions_to_remove lines (build_function_map lines)))"
      by blast
    then show "find_all_functions_to_remove lines (build_function_map lines) \<subseteq> R"
      by (simp add: pass5_grows)
  qed
  have 1: "phase1 fm \<subseteq> phase2_while lines fm (phase1 fm)" by (rule phase2_while_grows)
  have 2: "phase2_while lines fm (phase1 fm) \<subseteq> phase3 lines fm (phase2_while lines fm (phase1 fm))"
    by (rule phase3_grows)
  have 3: "phase3 lines fm (phase2_while lines fm (phase1 fm)) \<subseteq> find_all_functions_to_remove lines fm"
    unfolding find_all_functions_to_remove_def by (rule phase4_while_grows)
  have 4: "to_remove \<subseteq> snd (pass5 output_lines to_remove)" by (rule pass5_grows)
  from 1 2 3 4 5 show ?thesis by (intro conjI)
qed

lemma order_lines_run:
  "strip_iop_lines order_lines
     = Some (map (\<lambda>l. l @ [NL]) [''void process(void)'', ''{'', ''}''], {''helper'', ''gui_update''})"
  by code_simp

theorem removal_set_only_grows_witness:
  "strip_iop_lines order_lines
     = Some (map (\<lambda>l. l @ [NL]) [''void process(void)'', ''{'', ''}''], {''helper'', ''gui_update''})
   \<and> find_all_functions_to_remove order_lines (build_function_map order_lines)
       \<subseteq> {''helper'', ''gui_update''}
   \<and> phase1 order_map \<subseteq> phase2_while order_lines order_map (phase1 order_map)"
proof -
  note g = removal_set_only_grows[where fm = order_map and lines = order_lines
      and final = "map (\<lambda>l. l @ [NL]) [''void process(void)'', ''{'', ''}'']"
      and R = "{''helper'', ''gui_update''}"]
  note 1 = g[THEN conjunct1]
  note 2 = g[THEN conjunct2, THEN conjunct2, THEN conjunct2, THEN conjunct2, THEN mp,
      OF order_lines_run]
  from order_lines_run 2 1 show ?thesis by (intro conjI)
qed

section \<open>Unterminated blocks (C4)\<close>

definition unterminated_lines :: "string list" where
  "unterminated_lines = map (\<lambda>l. l @ [NL])
     [''static void foo(void)'', ''{'', ''  GtkWidget *w;'',
      ''  if(self->widget) { gtk_widget_show(w);'', ''}'']"

lemma unterminated_names:
  "map get_function_name unterminated_lines = [Some (''foo'', True), None, None, None, None]"
  by code_simp

lemma unterminated_open: "find_brace_block_end unterminated_lines 0 = None"
  by code_simp

lemma unterminated_map: "build_function_map unterminated_lines = []"
  by code_simp

lemma unterminated_run: "strip_iop_lines unterminated_lines = Some ([], {''foo''})"
  by code_simp

text \<open>The block of \<^verbatim>\<open>foo\<close> never closes in the input, yet \<^verbatim>\<open>foo\<close> is reported as
  removed and none of its lines is written: Pass 4b drops the line with the
  second opening brace, after which the block closes for the sweep of Pass 5.\<close>

theorem unterminated_function_removed:
  "map get_function_name unterminated_lines = [Some (''foo'', True), None, None, None, None]
   \<and> find_brace_block_end unterminated_lines 0 = None
   \<and> build_function_map unterminated_lines = []
   \<and> strip_iop_lines unterminated_lines = Some ([], {''foo''})"
  using unterminated_names unterminated_open unterminated_map unterminated_run
  by (intro conjI)

subsection \<open>What the guards ensure\<close>

text \<open>A name has a closed definition in a text when some line of the text is a
  definition line of that name whose block closes before the end of the text.\<close>

definition has_closed_definition :: "string list \<Rightarrow> string \<Rightarrow> bool" where
  "has_closed_definition ls name =
     (\<exists>i\<in>set [0..<length ls]. map_option fst (get_function_name (ls ! i)) = Some name
        \<and> find_brace_block_end ls i \<noteq> None)"

lemma key_has_closed_definition:
  assumes "name \<in> fst ` set (build_function_map ls)"
  shows "has_closed_definition ls name"
proof -
  from assms obtain s e st where "(name, s, e, st) \<in> set (build_function_map ls)" by auto
  from build_function_map_entries[OF this]
  have "s < length ls" "get_function_name (ls ! s) = Some (name, st)"
    "find_brace_block_end ls s = Some e" by (simp_all add: recorded_at_def)
  then have "s \<in> set [0..<length ls] \<and> map_option fst (get_function_name (ls ! s)) = Some name
      \<and> find_brace_block_end ls s \<noteq> None" by simp
  then show ?thesis unfolding has_closed_definition_def by blast
qed

text \<open>
  C4, as the code has it. The guard is local to a text and to a line. In any text
  (\<open>lines\<close> for the input, on which Pass 2 works; \<open>ls\<close> for the text that Pass 4b
  leaves, on which Pass 5 works), at a definition line whose block never closes
  before the end of that text, \<open>find_brace_block_end\<close> answers \<open>None\<close>; the
  function map of the text records no span that starts there; a round of the loop
  that removes functions from the text, standing at that line, copies it and goes
  on with the next one, so that the line is among the lines the loop returns when
  no round that starts at an earlier line goes past it; and the line that Pass 5
  returns is written, unless the declaration filter of Pass 5 or a test of Pass 6
  applies to it. A name without a closed definition in a text is a key of neither
  the function map of that text nor the removal set computed from it (the
  classifier's on the input, the orphans of Pass 5 on its text). Every name that a
  run reports as removed has a closed definition in the input or in the text
  Pass 5 works on.
\<close>

theorem unterminated_block_left_alone:
  "(get_function_name (lines ! i) = Some (name, st) \<and> find_brace_block_end lines i = None \<longrightarrow>
      (\<forall>n e s. (n, i, e, s) \<notin> set (build_function_map lines))
      \<and> pass2_step lines to_remove i = ([lines ! i], i + 1))
   \<and> (i < length lines \<and> get_function_name (lines ! i) = Some (name, st)
        \<and> find_brace_block_end lines i = None
        \<and> (\<forall>j<i. snd (pass2_step lines to_remove j) \<le> i) \<longrightarrow>
      lines ! i \<in> set (pass2_loop lines to_remove 0))
   \<and> (get_function_name (ls ! i) = Some (name, st) \<and> find_brace_block_end ls i = None \<longrightarrow>
      (\<forall>n e s. (n, i, e, s) \<notin> set (build_function_map ls))
      \<and> post_clean_step ls orphans i = ([ls ! i], i + 1))
   \<and> (i < length ls \<and> get_function_name (ls ! i) = Some (name, st)
        \<and> find_brace_block_end ls i = None
        \<and> (\<forall>j<i. snd (post_clean_step ls orphans j) \<le> i) \<longrightarrow>
      ls ! i \<in> set (post_clean_loop ls orphans 0))
   \<and> (\<not> has_closed_definition lines name \<longrightarrow>
      name \<notin> fst ` set (build_function_map lines)
      \<and> name \<notin> find_all_functions_to_remove lines (build_function_map lines))
   \<and> (\<not> has_closed_definition ls name \<longrightarrow>
      name \<notin> fst ` set (build_function_map ls)
      \<and> name \<notin> post_while ls (build_function_map ls) {})
   \<and> (strip_iop_lines lines = Some (final, R) \<and> name \<in> R \<longrightarrow>
      has_closed_definition lines name
      \<or> (\<exists>ls. pass5_input lines = Some ls \<and> has_closed_definition ls name))
   \<and> (strip_iop_lines lines = Some (final, R) \<and> pass5_input lines = Some ls \<and> i < length ls
        \<and> get_function_name (ls ! i) = Some (name, st) \<and> find_brace_block_end ls i = None
        \<and> (\<forall>j<i. snd (post_clean_step ls (post_while ls (build_function_map ls) {}) j) \<le> i)
        \<and> (\<forall>n\<in>R. \<not> is_forward_decl_of n (ls ! i))
        \<and> \<not> (matches GUI_DATA_DECL_RE (py_strip (ls ! i))
               \<and> is_substr ''self->gui_data'' (py_strip (ls ! i)))
        \<and> \<not> matches GUI_DATA_CAST_RE (py_strip (ls ! i)) \<longrightarrow>
      ls ! i \<in> set final)"
proof -
  have no_entry: "(n, i, e, s) \<notin> set (build_function_map t)"
    if "find_brace_block_end t i = None" for n e s t
  proof
    assume "(n, i, e, s) \<in> set (build_function_map t)"
    from build_function_map_entries[OF this] that show False by (simp add: recorded_at_def)
  qed
  have step2: "pass2_step lines to_remove i = ([lines ! i], i + 1)"
    if "get_function_name (lines ! i) = Some (name, st)" "find_brace_block_end lines i = None"
    using that by (intro pass2_step_keeps[where name = name and st = st]) simp_all
  have step5: "post_clean_step ls orph i = ([ls ! i], i + 1)"
    if "get_function_name (ls ! i) = Some (name, st)" "find_brace_block_end ls i = None" for orph
    using that by (intro post_clean_step_keeps[where name = name and st = st]) simp_all
  have 1: "(\<forall>n e s. (n, i, e, s) \<notin> set (build_function_map lines))
      \<and> pass2_step lines to_remove i = ([lines ! i], i + 1)"
    if a: "get_function_name (lines ! i) = Some (name, st) \<and> find_brace_block_end lines i = None"
  proof (intro conjI allI)
    fix n e s
    from a show "(n, i, e, s) \<notin> set (build_function_map lines)" by (intro no_entry) simp
    from a show "pass2_step lines to_remove i = ([lines ! i], i + 1)" by (intro step2) simp_all
  qed
  have 2: "lines ! i \<in> set (pass2_loop lines to_remove 0)"
    if a: "i < length lines \<and> get_function_name (lines ! i) = Some (name, st)
        \<and> find_brace_block_end lines i = None
        \<and> (\<forall>j<i. snd (pass2_step lines to_remove j) \<le> i)"
  proof -
    from a have "pass2_step lines to_remove i = ([lines ! i], i + 1)" by (intro step2) simp_all
    with a show ?thesis by (intro pass2_loop_copies) simp_all
  qed
  have 3: "(\<forall>n e s. (n, i, e, s) \<notin> set (build_function_map ls))
      \<and> post_clean_step ls orphans i = ([ls ! i], i + 1)"
    if a: "get_function_name (ls ! i) = Some (name, st) \<and> find_brace_block_end ls i = None"
  proof (intro conjI allI)
    fix n e s
    from a show "(n, i, e, s) \<notin> set (build_function_map ls)" by (intro no_entry) simp
    from a show "post_clean_step ls orphans i = ([ls ! i], i + 1)" by (intro step5) simp_all
  qed
  have 4: "ls ! i \<in> set (post_clean_loop ls orphans 0)"
    if a: "i < length ls \<and> get_function_name (ls ! i) = Some (name, st)
        \<and> find_brace_block_end ls i = None
        \<and> (\<forall>j<i. snd (post_clean_step ls orphans j) \<le> i)"
  proof -
    from a have "post_clean_step ls orphans i = ([ls ! i], i + 1)" by (intro step5) simp_all
    with a show ?thesis by (intro post_clean_loop_copies) simp_all
  qed
  have key: "name \<notin> fst ` set (build_function_map t)" if "\<not> has_closed_definition t name" for t
    using that key_has_closed_definition[of name t] by blast
  have 5: "name \<notin> fst ` set (build_function_map lines)
      \<and> name \<notin> find_all_functions_to_remove lines (build_function_map lines)"
    if a: "\<not> has_closed_definition lines name"
  proof -
    note k = key[OF a]
    from find_all_removable[of lines "build_function_map lines"] k
    have f: "name \<notin> find_all_functions_to_remove lines (build_function_map lines)"
      by (auto simp: removable_keys_def)
    from k f show ?thesis by (intro conjI)
  qed
  have 6: "name \<notin> fst ` set (build_function_map ls)
      \<and> name \<notin> post_while ls (build_function_map ls) {}"
    if a: "\<not> has_closed_definition ls name"
  proof -
    note k = key[OF a]
    from post_while_removable[of ls "build_function_map ls"] k
    have p: "name \<notin> post_while ls (build_function_map ls) {}"
      by (auto simp: removable_keys_def)
    from k p show ?thesis by (intro conjI)
  qed
  have 7: "has_closed_definition lines name
      \<or> (\<exists>ls. pass5_input lines = Some ls \<and> has_closed_definition ls name)"
    if a: "strip_iop_lines lines = Some (final, R) \<and> name \<in> R"
  proof -
    from a run_after_pass4b[of lines final R] obtain t where
      t: "pass5_input lines = Some t"
      and R: "R = find_all_functions_to_remove lines (build_function_map lines)
           \<union> post_while t (build_function_map t) {}" by blast
    from a R have "name \<in> find_all_functions_to_remove lines (build_function_map lines)
        \<or> name \<in> post_while t (build_function_map t) {}" by blast
    then show ?thesis
    proof
      assume "name \<in> find_all_functions_to_remove lines (build_function_map lines)"
      with find_all_removable[of lines "build_function_map lines"]
      have "name \<in> fst ` set (build_function_map lines)" by (auto simp: removable_keys_def)
      then have "has_closed_definition lines name" by (rule key_has_closed_definition)
      then show ?thesis by (rule disjI1)
    next
      assume "name \<in> post_while t (build_function_map t) {}"
      with post_while_removable[of t "build_function_map t"]
      have "name \<in> fst ` set (build_function_map t)" by (auto simp: removable_keys_def)
      then have "has_closed_definition t name" by (rule key_has_closed_definition)
      with t have "\<exists>ls. pass5_input lines = Some ls \<and> has_closed_definition ls name" by blast
      then show ?thesis by (rule disjI2)
    qed
  qed
  have 8: "ls ! i \<in> set final"
    if a: "strip_iop_lines lines = Some (final, R) \<and> pass5_input lines = Some ls \<and> i < length ls
        \<and> get_function_name (ls ! i) = Some (name, st) \<and> find_brace_block_end ls i = None
        \<and> (\<forall>j<i. snd (post_clean_step ls (post_while ls (build_function_map ls) {}) j) \<le> i)
        \<and> (\<forall>n\<in>R. \<not> is_forward_decl_of n (ls ! i))
        \<and> \<not> (matches GUI_DATA_DECL_RE (py_strip (ls ! i))
               \<and> is_substr ''self->gui_data'' (py_strip (ls ! i)))
        \<and> \<not> matches GUI_DATA_CAST_RE (py_strip (ls ! i))"
  proof -
    from a have "post_clean_step ls (post_while ls (build_function_map ls) {}) i
        = ([ls ! i], i + 1)" by (intro step5) simp_all
    with a have l: "ls ! i \<in> set (post_clean_loop ls (post_while ls (build_function_map ls) {}) 0)"
      by (intro post_clean_loop_copies) simp_all
    from a have b: "py_strip (ls ! i) \<noteq> []" by (intro definition_line_not_blank) simp
    from a have run: "strip_iop_lines lines = Some (final, R)"
      and inp: "pass5_input lines = Some ls"
      and fwd: "\<forall>n\<in>R. \<not> is_forward_decl_of n (ls ! i)"
      and decl: "\<not> (matches GUI_DATA_DECL_RE (py_strip (ls ! i))
               \<and> is_substr ''self->gui_data'' (py_strip (ls ! i)))"
      and cast: "\<not> matches GUI_DATA_CAST_RE (py_strip (ls ! i))" by simp_all
    from run inp l fwd decl cast b show ?thesis by (rule written_after_pass5)
  qed
  from impI[OF 1] impI[OF 2] impI[OF 3] impI[OF 4] impI[OF 5] impI[OF 6] impI[OF 7] impI[OF 8]
  show ?thesis by (intro conjI)
qed

text \<open>A run with two definition lines of \<^verbatim>\<open>gui_init\<close>, of which the first has a
  block that never closes. The name is in the removal set through the second; Pass
  2 skips \<^verbatim>\<open>gui_cleanup\<close> and the second definition and copies the first with
  the lines after it. Pass 5, on the text \<open>unclosed_swept\<close>, removes \<^verbatim>\<open>helper\<close> and
  copies the unclosed definition again.\<close>

definition unclosed_lines :: "string list" where
  "unclosed_lines = map (\<lambda>l. l @ [NL])
     [''void gui_cleanup(void)'', ''{'', ''}'',
      ''static void helper(void)'', ''{'', ''  gtk_widget_show(w);'', ''}'',
      ''void process(void)'', ''{'', ''  if(self->gui_data) { helper(); }'', ''}'',
      ''void gui_init(void)'', ''{'', ''  {'',
      ''void gui_init(void)'', ''{'', ''}'']"

definition unclosed_swept :: "string list" where
  "unclosed_swept = map (\<lambda>l. l @ [NL])
     [''static void helper(void)'', ''{'', ''  gtk_widget_show(w);'', ''}'',
      ''void process(void)'', ''{'', ''}'',
      ''void gui_init(void)'', ''{'', ''  {'']"

definition unclosed_final :: "string list" where
  "unclosed_final = map (\<lambda>l. l @ [NL])
     [''void process(void)'', ''{'', ''}'', ''void gui_init(void)'', ''{'', ''  {'']"

lemma unclosed_map:
  "build_function_map unclosed_lines
     = [(''gui_cleanup'', 0, 2, False), (''helper'', 3, 6, True), (''process'', 7, 10, False),
        (''gui_init'', 14, 16, False)]"
  by code_simp

lemma unclosed_removed:
  "find_all_functions_to_remove unclosed_lines (build_function_map unclosed_lines)
     = {''gui_cleanup'', ''gui_init''}"
  by code_simp

lemma unclosed_pass5_input: "pass5_input unclosed_lines = Some unclosed_swept"
  by code_simp

lemma unclosed_orphans:
  "post_while unclosed_swept (build_function_map unclosed_swept) {} = {''helper''}"
  by code_simp

lemma unclosed_run:
  "strip_iop_lines unclosed_lines = Some (unclosed_final, {''gui_cleanup'', ''gui_init'', ''helper''})"
  by code_simp

lemma unclosed_name11: "get_function_name (unclosed_lines ! 11) = Some (''gui_init'', False)"
  by code_simp

lemma unclosed_open11: "find_brace_block_end unclosed_lines 11 = None"
  by code_simp

lemma unclosed_name7: "get_function_name (unclosed_swept ! 7) = Some (''gui_init'', False)"
  by code_simp

lemma unclosed_open7: "find_brace_block_end unclosed_swept 7 = None"
  by code_simp

lemma unclosed_rounds2:
  "\<forall>j<11. snd (pass2_step unclosed_lines {''gui_cleanup'', ''gui_init''} j) \<le> 11"
  unfolding all_less_upt by code_simp

lemma unclosed_rounds5: "\<forall>j<7. snd (post_clean_step unclosed_swept {''helper''} j) \<le> 7"
  unfolding all_less_upt by code_simp

lemma unclosed_skip: "pass2_step unclosed_lines {''gui_cleanup'', ''gui_init''} 14 = ([], 17)"
  by code_simp

lemma unterminated_no_definition: "\<not> has_closed_definition unterminated_lines ''foo''"
  by code_simp

definition unterminated_swept :: "string list" where
  "unterminated_swept =
     [''static void foo(void)'' @ [NL], ''{'' @ [NL], ''  GtkWidget *w;'' @ [NL], [], ''}'' @ [NL]]"

lemma unterminated_pass5_input: "pass5_input unterminated_lines = Some unterminated_swept"
  by code_simp


lemma unclosed_no_definition: "\<not> has_closed_definition unclosed_swept ''gui_init''"
  by code_simp

lemma unclosed_filter:
  "\<forall>n\<in>{''gui_cleanup'', ''gui_init'', ''helper''}. \<not> is_forward_decl_of n (unclosed_swept ! 7)"
  by code_simp

lemma unclosed_decl:
  "\<not> (matches GUI_DATA_DECL_RE (py_strip (unclosed_swept ! 7))
      \<and> is_substr ''self->gui_data'' (py_strip (unclosed_swept ! 7)))"
  by code_simp

lemma unclosed_cast: "\<not> matches GUI_DATA_CAST_RE (py_strip (unclosed_swept ! 7))"
  by code_simp

theorem unterminated_block_left_alone_witness:
  "strip_iop_lines unclosed_lines = Some (unclosed_final, {''gui_cleanup'', ''gui_init'', ''helper''})
   \<and> find_all_functions_to_remove unclosed_lines (build_function_map unclosed_lines)
       = {''gui_cleanup'', ''gui_init''}
   \<and> get_function_name (unclosed_lines ! 11) = Some (''gui_init'', False)
   \<and> find_brace_block_end unclosed_lines 11 = None
   \<and> build_function_map unclosed_lines
       = [(''gui_cleanup'', 0, 2, False), (''helper'', 3, 6, True), (''process'', 7, 10, False),
          (''gui_init'', 14, 16, False)]
   \<and> pass2_step unclosed_lines {''gui_cleanup'', ''gui_init''} 11 = ([unclosed_lines ! 11], 11 + 1)
   \<and> pass2_step unclosed_lines {''gui_cleanup'', ''gui_init''} 14 = ([], 17)
   \<and> unclosed_lines ! 11 \<in> set (pass2_loop unclosed_lines {''gui_cleanup'', ''gui_init''} 0)
   \<and> pass5_input unclosed_lines = Some unclosed_swept
   \<and> post_while unclosed_swept (build_function_map unclosed_swept) {} = {''helper''}
   \<and> find_brace_block_end unclosed_swept 7 = None
   \<and> post_clean_step unclosed_swept {''helper''} 7 = ([unclosed_swept ! 7], 7 + 1)
   \<and> unclosed_swept ! 7 \<in> set (post_clean_loop unclosed_swept {''helper''} 0)
   \<and> unclosed_swept ! 7 \<in> set unclosed_final
   \<and> \<not> has_closed_definition unclosed_swept ''gui_init''
   \<and> ''gui_init'' \<notin> fst ` set (build_function_map unclosed_swept)
   \<and> \<not> has_closed_definition unterminated_lines ''foo''
   \<and> ''foo'' \<notin> fst ` set (build_function_map unterminated_lines)
   \<and> ''foo'' \<notin> find_all_functions_to_remove unterminated_lines (build_function_map unterminated_lines)
   \<and> strip_iop_lines unterminated_lines = Some ([], {''foo''})
   \<and> pass5_input unterminated_lines = Some unterminated_swept
   \<and> has_closed_definition unterminated_swept ''foo''"
proof -
  note t = unterminated_block_left_alone[where lines = unclosed_lines and ls = unclosed_swept
      and name = "''gui_init''" and st = False and to_remove = "{''gui_cleanup'', ''gui_init''}"
      and orphans = "{''helper''}" and final = unclosed_final
      and R = "{''gui_cleanup'', ''gui_init'', ''helper''}"]
  note v = unterminated_block_left_alone[where lines = unterminated_lines and name = "''foo''"
      and final = "[]" and R = "{''foo''}"]
  have pre1: "get_function_name (unclosed_lines ! 11) = Some (''gui_init'', False)
      \<and> find_brace_block_end unclosed_lines 11 = None"
    using unclosed_name11 unclosed_open11 by (intro conjI)
  note 1 = t[where i = 11, THEN conjunct1, THEN mp, OF pre1]
  have len11: "11 < length unclosed_lines" by (simp add: unclosed_lines_def)
  have pre2: "11 < length unclosed_lines
      \<and> get_function_name (unclosed_lines ! 11) = Some (''gui_init'', False)
      \<and> find_brace_block_end unclosed_lines 11 = None
      \<and> (\<forall>j<11. snd (pass2_step unclosed_lines {''gui_cleanup'', ''gui_init''} j) \<le> 11)"
    using len11 unclosed_name11 unclosed_open11 unclosed_rounds2 by (intro conjI)
  note 2 = t[where i = 11, THEN conjunct2, THEN conjunct1, THEN mp, OF pre2]
  have pre3: "get_function_name (unclosed_swept ! 7) = Some (''gui_init'', False)
      \<and> find_brace_block_end unclosed_swept 7 = None"
    using unclosed_name7 unclosed_open7 by (intro conjI)
  note 3 = t[where i = 7, THEN conjunct2, THEN conjunct2, THEN conjunct1, THEN mp, OF pre3]
  have len7: "7 < length unclosed_swept" by (simp add: unclosed_swept_def)
  have pre4: "7 < length unclosed_swept
      \<and> get_function_name (unclosed_swept ! 7) = Some (''gui_init'', False)
      \<and> find_brace_block_end unclosed_swept 7 = None
      \<and> (\<forall>j<7. snd (post_clean_step unclosed_swept {''helper''} j) \<le> 7)"
    using len7 unclosed_name7 unclosed_open7 unclosed_rounds5 by (intro conjI)
  note 4 = t[where i = 7, THEN conjunct2, THEN conjunct2, THEN conjunct2, THEN conjunct1, THEN mp,
      OF pre4]
  note 5 = v[THEN conjunct2, THEN conjunct2, THEN conjunct2, THEN conjunct2, THEN conjunct1,
      THEN mp, OF unterminated_no_definition]
  note 6 = t[where i = 7, THEN conjunct2, THEN conjunct2, THEN conjunct2, THEN conjunct2,
      THEN conjunct2, THEN conjunct1, THEN mp, OF unclosed_no_definition]
  have pre7: "strip_iop_lines unterminated_lines = Some ([], {''foo''}) \<and> ''foo'' \<in> {''foo''}"
    using unterminated_run by simp
  note 7 = v[THEN conjunct2, THEN conjunct2, THEN conjunct2, THEN conjunct2, THEN conjunct2,
      THEN conjunct2, THEN conjunct1, THEN mp, OF pre7]
  have pre9: "strip_iop_lines unclosed_lines
        = Some (unclosed_final, {''gui_cleanup'', ''gui_init'', ''helper''})
      \<and> pass5_input unclosed_lines = Some unclosed_swept \<and> 7 < length unclosed_swept
      \<and> get_function_name (unclosed_swept ! 7) = Some (''gui_init'', False)
      \<and> find_brace_block_end unclosed_swept 7 = None
      \<and> (\<forall>j<7. snd (post_clean_step unclosed_swept
            (post_while unclosed_swept (build_function_map unclosed_swept) {}) j) \<le> 7)
      \<and> (\<forall>n\<in>{''gui_cleanup'', ''gui_init'', ''helper''}.
            \<not> is_forward_decl_of n (unclosed_swept ! 7))
      \<and> \<not> (matches GUI_DATA_DECL_RE (py_strip (unclosed_swept ! 7))
             \<and> is_substr ''self->gui_data'' (py_strip (unclosed_swept ! 7)))
      \<and> \<not> matches GUI_DATA_CAST_RE (py_strip (unclosed_swept ! 7))"
    unfolding unclosed_orphans
    using unclosed_run unclosed_pass5_input len7 unclosed_name7 unclosed_open7 unclosed_rounds5
      unclosed_filter unclosed_decl unclosed_cast
    by (intro conjI)
  note 9 = t[where i = 7, THEN conjunct2, THEN conjunct2, THEN conjunct2, THEN conjunct2,
      THEN conjunct2, THEN conjunct2, THEN conjunct2, THEN mp, OF pre9]
  from 7
  have "\<exists>ls. pass5_input unterminated_lines = Some ls \<and> has_closed_definition ls ''foo''"
  proof
    assume c: "has_closed_definition unterminated_lines ''foo''"
    from unterminated_no_definition c show ?thesis by (rule notE)
  next
    assume "\<exists>ls. pass5_input unterminated_lines = Some ls \<and> has_closed_definition ls ''foo''"
    then show ?thesis .
  qed
  then have 8: "has_closed_definition unterminated_swept ''foo''"
    unfolding unterminated_pass5_input by simp
  from unclosed_run unclosed_removed unclosed_name11 unclosed_open11 unclosed_map
    1[THEN conjunct2] unclosed_skip 2 unclosed_pass5_input unclosed_orphans
    unclosed_open7 3[THEN conjunct2] 4 9 unclosed_no_definition 6[THEN conjunct1]
    unterminated_no_definition 5[THEN conjunct1] 5[THEN conjunct2] unterminated_run
    unterminated_pass5_input 8
  show ?thesis by (intro conjI)
qed

section \<open>The raw accessor with an else branch (C5)\<close>

definition raw_else_lines :: "string list" where
  "raw_else_lines = map (\<lambda>l. l @ [NL])
     [''void process(void)'', ''{'', ''  if(self->gui_data)'', ''  {'', ''    a();'', ''  }'',
      ''  else'', ''  {'', ''    b();'', ''  }'', ''}'']"

definition bound_else_lines :: "string list" where
  "bound_else_lines = map (\<lambda>l. l @ [NL])
     [''void process(void)'', ''{'', ''  dt_iop_x_gui_data_t *g = self->gui_data;'', ''  if(g)'',
      ''  {'', ''    a();'', ''  }'', ''  else'', ''  {'', ''    b();'', ''  }'', ''}'']"

text \<open>
  C5. For \<^verbatim>\<open>if(self->gui_data) { A } else { B }\<close> the rewriter removes the
  \<^verbatim>\<open>if\<close> block and goes on after its closing brace: the \<^verbatim>\<open>else\<close>, its braces and
  \<open>B\<close> at its old indentation stay in the function. Only for a variable bound to
  the accessor does the \<^verbatim>\<open>else\<close> body replace the construct, re-indented.
\<close>

theorem raw_accessor_else_left_dangling:
  "strip_gui_data_in_function raw_else_lines 0 10
     = Some (map (\<lambda>l. l @ [NL])
         [''void process(void)'', ''{'', ''  else'', ''  {'', ''    b();'', ''  }'', ''}''])
   \<and> strip_iop_lines raw_else_lines
     = Some (map (\<lambda>l. l @ [NL])
         [''void process(void)'', ''{'', ''  else'', ''  {'', ''    b();'', ''  }'', ''}''], {})
   \<and> strip_gui_data_in_function bound_else_lines 0 11
     = Some (map (\<lambda>l. l @ [NL]) [''void process(void)'', ''{'', ''  b();'', ''}''])"
proof (intro conjI)
  show "strip_gui_data_in_function raw_else_lines 0 10
     = Some (map (\<lambda>l. l @ [NL])
         [''void process(void)'', ''{'', ''  else'', ''  {'', ''    b();'', ''  }'', ''}''])"
    by code_simp
  show "strip_iop_lines raw_else_lines
     = Some (map (\<lambda>l. l @ [NL])
         [''void process(void)'', ''{'', ''  else'', ''  {'', ''    b();'', ''  }'', ''}''], {})"
    by code_simp
  show "strip_gui_data_in_function bound_else_lines 0 11
     = Some (map (\<lambda>l. l @ [NL]) [''void process(void)'', ''{'', ''  b();'', ''}''])"
    by code_simp
qed

section \<open>Forward declarations (C6)\<close>

definition extern_decl_lines :: "string list" where
  "extern_decl_lines = map (\<lambda>l. l @ [NL])
     [''void gui_init(void);'', ''void gui_init(void)'', ''{'', ''}'']"

definition split_decl_lines :: "string list" where
  "split_decl_lines = map (\<lambda>l. l @ [NL])
     [''static void gui_foo(int a, int b)'', ''{'', ''}'', ''static void gui_foo(int a,'',
      ''    int b);'']"

theorem forward_declaration_left:
  "strip_iop_lines extern_decl_lines = Some ([''void gui_init(void);'' @ [NL]], {''gui_init''})
   \<and> is_forward_declaration (''void gui_init(void);'' @ [NL])
   \<and> get_function_name (''void gui_init(void);'' @ [NL]) = Some (''gui_init'', False)
   \<and> strip_iop_lines split_decl_lines
       = Some ([''static void gui_foo(int a,'' @ [NL], ''    int b);'' @ [NL]], {''gui_foo''})"
proof (intro conjI)
  show "strip_iop_lines extern_decl_lines = Some ([''void gui_init(void);'' @ [NL]], {''gui_init''})"
    by code_simp
  show "is_forward_declaration (''void gui_init(void);'' @ [NL])" by code_simp
  show "get_function_name (''void gui_init(void);'' @ [NL]) = Some (''gui_init'', False)"
    by code_simp
  show "strip_iop_lines split_decl_lines
       = Some ([''static void gui_foo(int a,'' @ [NL], ''    int b);'' @ [NL]], {''gui_foo''})"
    by code_simp
qed

subsection \<open>Declarations the pattern recognises\<close>

text \<open>The name a stripped line declares, by the pattern of Pass 3.\<close>

definition fwd_name :: "string \<Rightarrow> string option" where
  "fwd_name s = map_option (\<lambda>fwd. grp fwd 1) (re_match FORWARD_DECL_RE s)"

lemma is_forward_decl_of_fwd_name: "is_forward_decl_of n l \<longleftrightarrow> fwd_name (py_strip l) = Some n"
  by (cases "re_match FORWARD_DECL_RE (py_strip l)") (simp_all add: is_forward_decl_of_def fwd_name_def)

lemma fwd_name_Nil: "fwd_name [] = None"
  by code_simp

definition declares_none_of :: "string set \<Rightarrow> string list \<Rightarrow> bool" where
  "declares_none_of R ls = (\<forall>s\<in>strips ls. \<forall>n\<in>R. fwd_name s \<noteq> Some n)"

lemma declares_none_of_mono:
  "strips ls' \<subseteq> insert [] (strips ls) \<Longrightarrow> declares_none_of R ls \<Longrightarrow> declares_none_of R ls'"
  unfolding declares_none_of_def using fwd_name_Nil by fastforce

lemma declares_none_of_subset:
  "set ls' \<subseteq> set ls \<Longrightarrow> declares_none_of R ls \<Longrightarrow> declares_none_of R ls'"
  using strips_mono[of ls' ls] by (intro declares_none_of_mono[of ls' ls]) auto

lemma declares_none_of_Un:
  "declares_none_of A ls \<Longrightarrow> declares_none_of B ls \<Longrightarrow> declares_none_of (A \<union> B) ls"
  unfolding declares_none_of_def by blast

lemma declares_none_of_empty: "declares_none_of {} ls"
  by (simp add: declares_none_of_def)

lemma remove_forward_declarations_clean:
  "declares_none_of R (remove_forward_declarations ls R)"
  unfolding declares_none_of_def strips_def remove_forward_declarations_eq
  by (auto simp: is_forward_decl_of_fwd_name)

lemma strips_pass4b: "strips (pass4b ls) \<subseteq> insert [] (strips ls)"
proof -
  have "strips (pass4b ls) \<subseteq> py_strip ` insert [] (set ls)"
    unfolding strips_def by (rule image_mono[OF set_pass4b])
  then show ?thesis by (simp add: strips_def py_strip_Nil)
qed

lemma pass5_clean:
  assumes "declares_none_of T ls"
  shows "declares_none_of (snd (pass5 ls T)) (fst (pass5 ls T))"
proof (cases "post_while ls (build_function_map ls) {} = {}")
  case True
  then have "pass5 ls T = (ls, T)" by (simp add: pass5_def Let_def)
  with assms show ?thesis by simp
next
  case False
  let ?O = "post_while ls (build_function_map ls) {}"
  let ?out = "remove_forward_declarations (post_clean_loop ls ?O 0) ?O"
  from False have p: "pass5 ls T = (?out, T \<union> ?O)" by (simp add: pass5_def Let_def)
  have "set ?out \<subseteq> set ls"
    using set_remove_forward_declarations set_post_clean_loop by blast
  with assms have "declares_none_of T ?out" by (rule declares_none_of_subset[rotated])
  moreover have "declares_none_of ?O ?out" by (rule remove_forward_declarations_clean)
  ultimately show ?thesis unfolding p by (simp add: declares_none_of_Un)
qed

lemma run_clean:
  assumes "strip_iop_lines lines = Some (final, R)"
  shows "declares_none_of R final"
proof -
  let ?T = "find_all_functions_to_remove lines (build_function_map lines)"
  let ?declared = "remove_forward_declarations (pass2_loop lines ?T 0) ?T"
  from strip_iop_lines_SomeD[OF assms] obtain rewritten where
    p4: "pass4 ?declared = Some rewritten"
    and f: "final = pass7 (pass6 (fst (pass5 (pass4b rewritten) ?T))) 0"
    and r: "R = snd (pass5 (pass4b rewritten) ?T)" by blast
  have "declares_none_of ?T ?declared" by (rule remove_forward_declarations_clean)
  moreover from pass4_strips[OF p4] have "strips rewritten \<subseteq> insert [] (strips ?declared)" by blast
  ultimately have "declares_none_of ?T rewritten" by (rule declares_none_of_mono[rotated])
  with strips_pass4b have "declares_none_of ?T (pass4b rewritten)"
    by (rule declares_none_of_mono)
  then have "declares_none_of R (fst (pass5 (pass4b rewritten) ?T))"
    unfolding r by (rule pass5_clean)
  moreover have "set final \<subseteq> set (fst (pass5 (pass4b rewritten) ?T))"
    unfolding f using set_pass7 set_pass6 by blast
  ultimately show ?thesis by (rule declares_none_of_subset[rotated])
qed

text \<open>
  C6, as the code has it. No line that the pattern of Pass 3 recognises as a
  forward declaration of a removed name (a \<^verbatim>\<open>static\<close> declaration on one line
  whose parameter list has no inner parenthesis) is left after Pass 3, and none is
  among the lines a run writes, for any name of the set the run reports; it does
  not matter where the definition stands.
\<close>

theorem no_static_forward_declaration_left:
  "(\<forall>l\<in>set (remove_forward_declarations output_lines removed_names).
       \<forall>n\<in>removed_names. \<not> is_forward_decl_of n l)
   \<and> (strip_iop_lines lines = Some (final, R) \<longrightarrow>
       (\<forall>l\<in>set final. \<forall>n\<in>R. \<not> is_forward_decl_of n l))"
proof (intro conjI impI ballI)
  fix l n assume "l \<in> set (remove_forward_declarations output_lines removed_names)"
    and "n \<in> removed_names"
  with remove_forward_declarations_clean[of removed_names output_lines]
  show "\<not> is_forward_decl_of n l"
    unfolding declares_none_of_def strips_def is_forward_decl_of_fwd_name by blast
next
  fix l n assume "strip_iop_lines lines = Some (final, R)" and "l \<in> set final" and "n \<in> R"
  with run_clean[of lines final R]
  show "\<not> is_forward_decl_of n l"
    unfolding declares_none_of_def strips_def is_forward_decl_of_fwd_name by blast
qed

definition static_decl_lines :: "string list" where
  "static_decl_lines = map (\<lambda>l. l @ [NL])
     [''static void gui_foo(int a);'', ''int x;'', ''static void gui_foo(int a)'', ''{'', ''}'']"

lemma static_decl_run: "strip_iop_lines static_decl_lines = Some ([''int x;'' @ [NL]], {''gui_foo''})"
  by code_simp

lemma static_decl_first: "is_forward_decl_of ''gui_foo'' (static_decl_lines ! 0)"
  by code_simp

theorem no_static_forward_declaration_left_witness:
  "is_forward_decl_of ''gui_foo'' (static_decl_lines ! 0)
   \<and> strip_iop_lines static_decl_lines = Some ([''int x;'' @ [NL]], {''gui_foo''})
   \<and> \<not> is_forward_decl_of ''gui_foo'' (''int x;'' @ [NL])"
proof -
  note t = no_static_forward_declaration_left[where lines = static_decl_lines
      and final = "[''int x;'' @ [NL]]" and R = "{''gui_foo''}"]
  note all = t[THEN conjunct2, THEN mp, OF static_decl_run]
  have "\<not> is_forward_decl_of ''gui_foo'' (''int x;'' @ [NL])"
    by (rule all[THEN bspec, THEN bspec]) simp_all
  with static_decl_first static_decl_run show ?thesis by (intro conjI)
qed

section \<open>Names the map does not know (C7)\<close>

text \<open>
  C7. For every name that is not a key of the function map, and for all lines and
  every skip set, \<open>has_external_ref\<close> answers \<open>True\<close>: a name the map does not know
  counts as referenced from outside.
\<close>

theorem unknown_name_has_external_ref:
  "name \<notin> fst ` set func_map \<Longrightarrow> has_external_ref name lines func_map skip_set"
  by (simp add: has_external_ref_def map_of_eq_None_iff[symmetric])

theorem unknown_name_has_external_ref_witness:
  "''helper'' \<notin> fst ` set [(''process'', (0, 2, False))]
   \<and> has_external_ref ''helper'' [''void process(void)'', ''{'', ''}''] [(''process'', (0, 2, False))] {''process''}"
  using unknown_name_has_external_ref
    [of "''helper''" "[(''process'', (0, 2, False))]" "[''void process(void)'', ''{'', ''}'']" "{''process''}"]
  by simp

section \<open>Exit status (C8)\<close>

text \<open>A run of \<^verbatim>\<open>strip_iop\<close> on a file that can be read, with an output that can
  be opened, returns: the passes never raise.\<close>

lemma strip_iop_returns:
  assumes "regular fs inp = Some (Text content)" "writable fs outp"
  shows "\<exists>fs' rep. strip_iop inp outp fs = Inr (fs', rep)"
proof -
  from strip_iop_lines_total obtain final R where
    "strip_iop_lines (readlines content) = Some (final, R)" by blast
  with assms show ?thesis by (simp add: strip_iop_def Let_def)
qed

lemma strip_iop_raises:
  assumes "regular fs inp = Some Unreadable \<or> (regular fs inp \<noteq> None \<and> \<not> writable fs outp)"
  shows "\<exists>e. strip_iop inp outp fs = Inl e"
proof (cases "regular fs inp")
  case None
  then show ?thesis by (simp add: strip_iop_def)
next
  case (Some f)
  show ?thesis
  proof (cases f)
    case Unreadable
    with Some show ?thesis by (simp add: strip_iop_def)
  next
    case (Text content)
    with Some assms have w: "\<not> writable fs outp" by auto
    from strip_iop_lines_total obtain final R where
      "strip_iop_lines (readlines content) = Some (final, R)" by blast
    with Some Text w show ?thesis by (simp add: strip_iop_def Let_def)
  qed
qed

text \<open>
  C8. With any number of arguments other than two, the program prints the usage
  message and exits with status 1. With two arguments of which the first is not
  the path of an existing file, it prints the error message and exits with status
  1. With two arguments, it exits with status 0 when \<^verbatim>\<open>strip_iop\<close> returns, which
  it does whenever the input can be read and the output can be opened. (When the
  input is a file that cannot be read, or the output cannot be opened, the
  exception leaves \<^verbatim>\<open>main\<close>: a traceback and status 1.)
\<close>

theorem main_exit_codes:
  "(length args \<noteq> 2 \<longrightarrow>
      exit_code (main prog args fs) = 1
      \<and> stderr (main prog args fs) = Printed (''Usage: '' @ prog @ '' input.c output.c''))
   \<and> (regular fs inp = None \<longrightarrow>
      exit_code (main prog [inp, outp] fs) = 1
      \<and> stderr (main prog [inp, outp] fs) = Printed (''Error: '' @ inp @ '' not found''))
   \<and> (strip_iop inp outp fs = Inr (fs', rep) \<longrightarrow>
      exit_code (main prog [inp, outp] fs) = 0 \<and> stderr (main prog [inp, outp] fs) = Silent
      \<and> stdout (main prog [inp, outp] fs) = Some rep \<and> files (main prog [inp, outp] fs) = fs')
   \<and> (regular fs inp = Some (Text content) \<and> writable fs outp \<longrightarrow>
      exit_code (main prog [inp, outp] fs) = 0 \<and> stderr (main prog [inp, outp] fs) = Silent)
   \<and> (regular fs inp = Some Unreadable \<or> (regular fs inp \<noteq> None \<and> \<not> writable fs outp) \<longrightarrow>
      exit_code (main prog [inp, outp] fs) = 1
      \<and> (\<exists>e. stderr (main prog [inp, outp] fs) = Traceback e))"
proof -
  have usage: "exit_code (main prog args fs) = 1
      \<and> stderr (main prog args fs) = Printed (''Usage: '' @ prog @ '' input.c output.c'')"
    if "length args \<noteq> 2"
    using that by (simp add: main_def)
  have missing: "exit_code (main prog [inp, outp] fs) = 1
      \<and> stderr (main prog [inp, outp] fs) = Printed (''Error: '' @ inp @ '' not found'')"
    if "regular fs inp = None"
    using that by (simp add: main_def)
  have returned: "exit_code (main prog [inp, outp] fs) = 0
      \<and> stderr (main prog [inp, outp] fs) = Silent
      \<and> stdout (main prog [inp, outp] fs) = Some r \<and> files (main prog [inp, outp] fs) = f"
    if "strip_iop inp outp fs = Inr (f, r)" for f r
  proof -
    from that have "regular fs inp \<noteq> None"
      by (auto simp: strip_iop_def split: option.splits)
    with that show ?thesis by (simp add: main_def)
  qed
  have success: "exit_code (main prog [inp, outp] fs) = 0
      \<and> stderr (main prog [inp, outp] fs) = Silent"
    if "regular fs inp = Some (Text content) \<and> writable fs outp"
  proof -
    from that strip_iop_returns[of fs inp content outp] obtain f r where
      "strip_iop inp outp fs = Inr (f, r)" by blast
    from returned[OF this] show ?thesis by simp
  qed
  have raised: "exit_code (main prog [inp, outp] fs) = 1
      \<and> (\<exists>e. stderr (main prog [inp, outp] fs) = Traceback e)"
    if a: "regular fs inp = Some Unreadable \<or> (regular fs inp \<noteq> None \<and> \<not> writable fs outp)"
  proof -
    from strip_iop_raises[OF a] obtain e where "strip_iop inp outp fs = Inl e" by blast
    moreover from a have "regular fs inp \<noteq> None" by auto
    ultimately show ?thesis by (simp add: main_def)
  qed
  from impI[OF usage] impI[OF missing] impI[OF returned[of fs' rep]] impI[OF success]
    impI[OF raised]
  show ?thesis by (intro conjI)
qed

text \<open>A file system with one readable file, one file that does not decode, and a
  directory \<^verbatim>\<open>ro\<close> in which nothing can be created.\<close>

definition tiny_text :: string where
  "tiny_text = ''int x;'' @ [NL]"

definition tiny_fs :: file_system where
  "tiny_fs = \<lparr>regular = [''in.c'' \<mapsto> Text tiny_text, ''bad.c'' \<mapsto> Unreadable],
              writable = (\<lambda>p. \<not> prefix ''ro/'' p)\<rparr>"

definition tiny_report :: report where
  "tiny_report = \<lparr>input_path = ''in.c'', output_path = ''out.c'', removed_functions = {},
                  lines_before = 1, lines_after = 1\<rparr>"

definition tiny_fs_after :: file_system where
  "tiny_fs_after = tiny_fs\<lparr>regular := (regular tiny_fs)(''out.c'' \<mapsto> Text tiny_text)\<rparr>"

lemma tiny_run: "strip_iop_lines (readlines tiny_text) = Some ([tiny_text], {})"
  by code_simp

lemma tiny_strip_iop: "strip_iop ''in.c'' ''out.c'' tiny_fs = Inr (tiny_fs_after, tiny_report)"
proof -
  have r: "length (readlines tiny_text) = 1" by code_simp
  show ?thesis
    by (simp add: strip_iop_def tiny_run r Let_def tiny_fs_def tiny_fs_after_def tiny_report_def)
qed

theorem main_exit_codes_witness:
  "exit_code (main ''strip_iop.py'' [''in.c''] tiny_fs) = 1
   \<and> stderr (main ''strip_iop.py'' [''in.c''] tiny_fs) = Printed ''Usage: strip_iop.py input.c output.c''
   \<and> exit_code (main ''strip_iop.py'' [''missing.c'', ''out.c''] tiny_fs) = 1
   \<and> stderr (main ''strip_iop.py'' [''missing.c'', ''out.c''] tiny_fs) = Printed ''Error: missing.c not found''
   \<and> strip_iop ''in.c'' ''out.c'' tiny_fs = Inr (tiny_fs_after, tiny_report)
   \<and> exit_code (main ''strip_iop.py'' [''in.c'', ''out.c''] tiny_fs) = 0
   \<and> stderr (main ''strip_iop.py'' [''in.c'', ''out.c''] tiny_fs) = Silent
   \<and> stdout (main ''strip_iop.py'' [''in.c'', ''out.c''] tiny_fs) = Some tiny_report
   \<and> files (main ''strip_iop.py'' [''in.c'', ''out.c''] tiny_fs) = tiny_fs_after
   \<and> exit_code (main ''strip_iop.py'' [''bad.c'', ''out.c''] tiny_fs) = 1
   \<and> exit_code (main ''strip_iop.py'' [''in.c'', ''ro/out.c''] tiny_fs) = 1"
proof -
  have l: "length [''in.c''] \<noteq> 2" by simp
  have m: "regular tiny_fs ''missing.c'' = None" by (simp add: tiny_fs_def)
  have f: "regular tiny_fs ''in.c'' = Some (Text tiny_text) \<and> writable tiny_fs ''out.c''"
    by (simp add: tiny_fs_def)
  have b: "regular tiny_fs ''bad.c'' = Some Unreadable
      \<or> (regular tiny_fs ''bad.c'' \<noteq> None \<and> \<not> writable tiny_fs ''out.c'')"
    by (simp add: tiny_fs_def)
  have w: "regular tiny_fs ''in.c'' = Some Unreadable
      \<or> (regular tiny_fs ''in.c'' \<noteq> None \<and> \<not> writable tiny_fs ''ro/out.c'')"
    by (simp add: tiny_fs_def)
  note t1 = main_exit_codes[where args = "[''in.c'']" and prog = "''strip_iop.py''"
      and fs = tiny_fs and inp = "''missing.c''" and outp = "''out.c''"]
  note t2 = main_exit_codes[where prog = "''strip_iop.py''" and fs = tiny_fs and inp = "''in.c''"
      and outp = "''out.c''" and fs' = tiny_fs_after and rep = tiny_report
      and content = tiny_text]
  note t3 = main_exit_codes[where prog = "''strip_iop.py''" and fs = tiny_fs and inp = "''bad.c''"
      and outp = "''out.c''"]
  note t4 = main_exit_codes[where prog = "''strip_iop.py''" and fs = tiny_fs and inp = "''in.c''"
      and outp = "''ro/out.c''"]
  note 1 = t1[THEN conjunct1, THEN mp, OF l]
  note 2 = t1[THEN conjunct2, THEN conjunct1, THEN mp, OF m]
  note 3 = t2[THEN conjunct2, THEN conjunct2, THEN conjunct1, THEN mp, OF tiny_strip_iop]
  note 4 = t2[THEN conjunct2, THEN conjunct2, THEN conjunct2, THEN conjunct1, THEN mp, OF f]
  note 5 = t3[THEN conjunct2, THEN conjunct2, THEN conjunct2, THEN conjunct2, THEN mp, OF b,
      THEN conjunct1]
  note 6 = t4[THEN conjunct2, THEN conjunct2, THEN conjunct2, THEN conjunct2, THEN mp, OF w,
      THEN conjunct1]
  from 1 2 3 4 5 6 tiny_strip_iop show ?thesis by simp
qed

section \<open>Widget lines (C9)\<close>

text \<open>A line whose stripped text contains \<^verbatim>\<open>self->widget\<close> together with
  \<^verbatim>\<open>gtk_stack_\<close> or \<^verbatim>\<open>gtk_widget_\<close>.\<close>

definition is_widget_gtk_line :: "string \<Rightarrow> bool" where
  "is_widget_gtk_line line =
     (is_substr ''self->widget'' (py_strip line)
      \<and> (is_substr ''gtk_stack_'' (py_strip line) \<or> is_substr ''gtk_widget_'' (py_strip line)))"

lemma widget_line_broad:
  assumes "is_widget_gtk_line line"
  shows "is_substr ''gtk_stack'' (py_strip line) \<or> is_substr ''gtk_widget'' (py_strip line)"
proof -
  have a: "is_substr ''gtk_stack_'' s \<Longrightarrow> is_substr ''gtk_stack'' s" for s
    using is_substr_shorter[of "''gtk_stack''" "''_''" s] by simp
  have b: "is_substr ''gtk_widget_'' s \<Longrightarrow> is_substr ''gtk_widget'' s" for s
    using is_substr_shorter[of "''gtk_widget''" "''_''" s] by simp
  from assms a b show ?thesis unfolding is_widget_gtk_line_def by blast
qed

lemma pass4b_widget_line:
  assumes "is_widget_gtk_line line"
  shows "pass4b (line # ls) = (if matches WIDGET_IF_RE (py_strip line) then [] # pass4b ls else pass4b ls)"
proof (cases "matches WIDGET_IF_RE (py_strip line)")
  case True
  with widget_line_broad[OF assms] show ?thesis by (simp add: Let_def)
next
  case False
  with assms show ?thesis by (simp add: is_widget_gtk_line_def Let_def)
qed

lemma not_widget_blank: "\<not> is_widget_gtk_line []"
  by (simp add: is_widget_gtk_line_def py_strip_Nil)

lemma pass4b_no_widget: "l \<in> set (pass4b ls) \<Longrightarrow> \<not> is_widget_gtk_line l"
proof (induction ls)
  case Nil
  then show ?case by simp
next
  case (Cons x ls)
  show ?case
  proof (cases "is_widget_gtk_line x")
    case True
    from Cons.prems have "l = [] \<or> l \<in> set (pass4b ls)"
      unfolding pass4b_widget_line[OF True] by (auto split: if_splits)
    with Cons.IH not_widget_blank show ?thesis by blast
  next
    case False
    from Cons.prems have "l = [] \<or> l = x \<or> l \<in> set (pass4b ls)"
      by (auto simp: Let_def split: if_splits)
    with Cons.IH not_widget_blank False show ?thesis by blast
  qed
qed

text \<open>
  C9. Pass 4b treats every line alike, whatever function it stands in: a line
  whose stripped text contains \<^verbatim>\<open>self->widget\<close> together with \<^verbatim>\<open>gtk_stack_\<close> or
  \<^verbatim>\<open>gtk_widget_\<close> is replaced by an empty line when it has the form
  \<^verbatim>\<open>if (self->widget) ...\<close> and is deleted otherwise; no such line is left after
  the pass, nor among the lines the run writes. The names of the protected set
  play no part in the pass.
\<close>

theorem widget_lines_removed:
  "(is_widget_gtk_line line \<longrightarrow>
      pass4b (before @ line # after)
        = pass4b before @ (if matches WIDGET_IF_RE (py_strip line) then [[]] else []) @ pass4b after)
   \<and> (\<forall>l\<in>set (pass4b output_lines). \<not> is_widget_gtk_line l)
   \<and> (strip_iop_lines lines = Some (final, R) \<longrightarrow> (\<forall>l\<in>set final. \<not> is_widget_gtk_line l))"
proof (intro conjI impI ballI)
  assume "is_widget_gtk_line line"
  then show "pass4b (before @ line # after)
        = pass4b before @ (if matches WIDGET_IF_RE (py_strip line) then [[]] else []) @ pass4b after"
    by (simp only: pass4b_append pass4b_widget_line) simp
next
  fix l assume "l \<in> set (pass4b output_lines)"
  then show "\<not> is_widget_gtk_line l" by (rule pass4b_no_widget)
next
  fix l assume run: "strip_iop_lines lines = Some (final, R)" and l: "l \<in> set final"
  from strip_iop_lines_SomeD[OF run] obtain rewritten T where
    "final = pass7 (pass6 (fst (pass5 (pass4b rewritten) T))) 0" by blast
  with l set_after_pass4b have "l \<in> set (pass4b rewritten)" by blast
  then show "\<not> is_widget_gtk_line l" by (rule pass4b_no_widget)
qed

definition widget_lines :: "string list" where
  "widget_lines = map (\<lambda>l. l @ [NL])
     [''void process(void)'', ''{'', ''  gtk_widget_show(self->widget);'',
      ''  if(self->widget) gtk_stack_x(self->widget);'', ''  y();'', ''}'']"

definition widget_final :: "string list" where
  "widget_final = [''void process(void)'' @ [NL], ''{'' @ [NL], [], ''  y();'' @ [NL], ''}'' @ [NL]]"

lemma widget_lines_run: "strip_iop_lines widget_lines = Some (widget_final, {})"
  by code_simp

lemma widget_lines_marked:
  "is_widget_gtk_line (widget_lines ! 2) \<and> is_widget_gtk_line (widget_lines ! 3)"
  by code_simp

lemma process_protected: "''process'' \<in> KEEP_FUNCTIONS"
  by (simp add: KEEP_FUNCTIONS_def)

lemma widget_lines_map: "build_function_map widget_lines = [(''process'', 0, 5, False)]"
  by code_simp

theorem widget_lines_removed_witness:
  "''process'' \<in> KEEP_FUNCTIONS
   \<and> build_function_map widget_lines = [(''process'', 0, 5, False)]
   \<and> is_widget_gtk_line (widget_lines ! 2) \<and> is_widget_gtk_line (widget_lines ! 3)
   \<and> strip_iop_lines widget_lines = Some (widget_final, {})
   \<and> \<not> is_widget_gtk_line (widget_final ! 2)
   \<and> \<not> is_widget_gtk_line (widget_final ! 3)"
proof -
  note t = widget_lines_removed[where lines = widget_lines and final = widget_final and R = "{}"]
  note all = t[THEN conjunct2, THEN conjunct2, THEN mp, OF widget_lines_run]
  have "widget_final ! 2 \<in> set widget_final" "widget_final ! 3 \<in> set widget_final"
    by (simp_all add: widget_final_def)
  with all have "\<not> is_widget_gtk_line (widget_final ! 2)" "\<not> is_widget_gtk_line (widget_final ! 3)"
    by blast+
  with process_protected widget_lines_map widget_lines_marked widget_lines_run
  show ?thesis by (intro conjI) simp_all
qed

section \<open>Resource bindings (C10)\<close>

text \<open>A line that declares a pointer to the module's GUI data and mentions the
  accessor: the test of Pass 6.\<close>

definition is_gui_data_decl_line :: "string \<Rightarrow> bool" where
  "is_gui_data_decl_line line =
     (matches GUI_DATA_DECL_RE (py_strip line) \<and> is_substr ''self->gui_data'' (py_strip line))"

lemma pass6_no_decl: "l \<in> set (pass6 ls) \<Longrightarrow> \<not> is_gui_data_decl_line l"
proof (induction ls)
  case Nil
  then show ?case by simp
next
  case (Cons x ls)
  show ?case
  proof (cases "is_gui_data_decl_line x")
    case True
    then have "pass6 (x # ls) = pass6 ls" by (simp add: is_gui_data_decl_line_def Let_def)
    with Cons show ?thesis by simp
  next
    case False
    from Cons.prems have "l = x \<or> l \<in> set (pass6 ls)"
      by (auto simp: Let_def split: if_splits)
    with Cons.IH False show ?thesis by blast
  qed
qed

lemma sgd_step_assign:
  "re_match GUI_DATA_ASSIGN_RE (lines ! i) = Some ga \<Longrightarrow>
     sgd_step lines func_end v i = Some ([], Some (grp ga 2), i + 1)"
  by (simp add: sgd_step_def)

lemma sgd_loop_step:
  assumes "i \<le> func_end" "i < length lines" "sgd_step lines func_end v i = Some (out, v', i')"
  shows "sgd_loop lines func_end v i = map_option ((@) out) (sgd_loop lines func_end v' i')"
  using assms by (subst sgd_loop.simps) (simp split: option.splits)

lemma slice_step:
  assumes "s < j" "j \<le> length xs"
  shows "slice xs s j = xs ! s # slice xs (s + 1) j"
proof -
  from assms have "drop s xs = xs ! s # drop (Suc s) xs" by (simp add: Cons_nth_drop_Suc)
  moreover from assms have "j - s = Suc (j - (s + 1))" by simp
  ultimately show ?thesis by (simp add: slice_def)
qed

text \<open>Lines that the loop copies one by one come out as they are, followed by what
  the loop returns from the line after them.\<close>

lemma sgd_loop_copied_prefix:
  assumes "j \<le> func_end" "j < length lines"
  shows "s \<le> j \<Longrightarrow>
    \<forall>k\<in>set [s..<j]. sgd_step lines func_end v k = Some ([lines ! k], v, k + 1) \<Longrightarrow>
    sgd_loop lines func_end v s = map_option ((@) (slice lines s j)) (sgd_loop lines func_end v j)"
proof (induction "j - s" arbitrary: s)
  case 0
  then have "s = j" by simp
  then show ?case by (cases "sgd_loop lines func_end v j") (simp_all add: slice_def)
next
  case (Suc n)
  then have lt: "s < j" by simp
  then have "s \<in> set [s..<j]" by simp
  with Suc.prems(2) have step: "sgd_step lines func_end v s = Some ([lines ! s], v, s + 1)"
    by blast
  from lt assms have a: "sgd_loop lines func_end v s
      = map_option ((@) [lines ! s]) (sgd_loop lines func_end v (s + 1))"
    by (intro sgd_loop_step step) simp_all
  from Suc.prems(2) have rest:
    "\<forall>k\<in>set [s + 1..<j]. sgd_step lines func_end v k = Some ([lines ! k], v, k + 1)"
    by simp
  from Suc.hyps(2) lt have "n = j - (s + 1)" "s + 1 \<le> j" by simp_all
  from Suc.hyps(1)[OF this rest] have b: "sgd_loop lines func_end v (s + 1)
      = map_option ((@) (slice lines (s + 1) j)) (sgd_loop lines func_end v j)" .
  from lt assms(2) have c: "slice lines s j = lines ! s # slice lines (s + 1) j"
    by (intro slice_step) simp_all
  show ?case unfolding a b c by (cases "sgd_loop lines func_end v j") simp_all
qed

definition void_binding_lines :: "string list" where
  "void_binding_lines = map (\<lambda>l. l @ [NL])
     [''void process(void)'', ''{'', ''  dt_iop_x_gui_data_t *g = self->gui_data;'', ''  if(g)'',
      ''  {'', ''    a();'', ''  }'', ''  else'', ''  {'', ''    void *h = self->gui_data;'', ''  }'',
      ''}'']"

definition struct_binding_lines :: "string list" where
  "struct_binding_lines = map (\<lambda>l. l @ [NL])
     [''void process(void)'', ''{'', ''  struct dt_iop_x_gui_data_t *g = self->gui_data;'',
      ''  y();'', ''}'']"

lemma void_binding_run:
  "strip_iop_lines void_binding_lines
     = Some (map (\<lambda>l. l @ [NL])
         [''void process(void)'', ''{'', ''  void *h = self->gui_data;'', ''}''], {})"
  by code_simp

lemma void_binding_match:
  "matches GUI_DATA_ASSIGN_RE (''  void *h = self->gui_data;'' @ [NL])"
  by code_simp

lemma void_binding_mentions:
  "is_substr ''self->gui_data'' (py_strip (''  void *h = self->gui_data;'' @ [NL]))"
  by code_simp

lemma struct_binding_run: "strip_iop_lines struct_binding_lines = Some (struct_binding_lines, {})"
  by code_simp

lemma struct_binding_mentions:
  "is_substr ''self->gui_data'' (py_strip (struct_binding_lines ! 2))"
  by code_simp

text \<open>Two declarations that reference \<^verbatim>\<open>self->gui_data\<close> and are written. A binding
  of type \<^verbatim>\<open>void *\<close> inside the \<^verbatim>\<open>else\<close> body of a bound \<^verbatim>\<open>if\<close> is copied by
  the rewriter without a test, and Pass 6 tests only lines that start with the
  GUI-data type. A declaration that starts with \<^verbatim>\<open>struct\<close> matches neither the
  binding pattern nor the test of Pass 6: the run returns its input.\<close>

theorem void_binding_left:
  "matches GUI_DATA_ASSIGN_RE (''  void *h = self->gui_data;'' @ [NL])
   \<and> is_substr ''self->gui_data'' (py_strip (''  void *h = self->gui_data;'' @ [NL]))
   \<and> strip_iop_lines void_binding_lines
     = Some (map (\<lambda>l. l @ [NL])
         [''void process(void)'', ''{'', ''  void *h = self->gui_data;'', ''}''], {})
   \<and> is_substr ''self->gui_data'' (py_strip (struct_binding_lines ! 2))
   \<and> strip_iop_lines struct_binding_lines = Some (struct_binding_lines, {})"
  using void_binding_match void_binding_mentions void_binding_run struct_binding_mentions
    struct_binding_run
  by (intro conjI)

text \<open>
  C10, as the code has it. When the loop of the rewriter stands at a line that
  matches the binding pattern \<^verbatim>\<open>type *var = (cast)self->gui_data;\<close> (the type a
  \<^verbatim>\<open>dt_iop_..._gui_data_t\<close> or \<^verbatim>\<open>void\<close>), it records the variable and goes on with
  the next line without appending the line: what it returns from that line on is
  what it returns from the next line on with the variable bound. So when the lines
  of the function before the binding are lines that the loop copies one by one,
  the function's output is these lines followed by the rewriting of the lines
  after the binding, and the binding line is not part of it. Pass 6 then leaves no
  line whose stripped text starts with an optional \<^verbatim>\<open>const\<close> and a pointer to a
  \<^verbatim>\<open>dt_iop_..._gui_data_t\<close> and contains \<^verbatim>\<open>self->gui_data\<close>, and none is among
  the lines the run writes.
\<close>

theorem binding_line_deleted:
  "(i \<le> func_end \<and> i < length lines \<and> re_match GUI_DATA_ASSIGN_RE (lines ! i) = Some ga \<longrightarrow>
      sgd_step lines func_end v i = Some ([], Some (grp ga 2), i + 1)
      \<and> sgd_loop lines func_end v i = sgd_loop lines func_end (Some (grp ga 2)) (i + 1))
   \<and> (func_start \<le> i \<and> i \<le> func_end \<and> i < length lines
        \<and> re_match GUI_DATA_ASSIGN_RE (lines ! i) = Some ga
        \<and> (\<forall>k\<in>set [func_start..<i].
              sgd_step lines func_end None k = Some ([lines ! k], None, k + 1)) \<longrightarrow>
      strip_gui_data_in_function lines func_start func_end
        = map_option ((@) (slice lines func_start i))
            (sgd_loop lines func_end (Some (grp ga 2)) (i + 1)))
   \<and> (\<forall>l\<in>set (pass6 output_lines). \<not> is_gui_data_decl_line l)
   \<and> (strip_iop_lines src = Some (final, R) \<longrightarrow> (\<forall>l\<in>set final. \<not> is_gui_data_decl_line l))"
proof -
  have at: "sgd_loop lines func_end w i = sgd_loop lines func_end (Some (grp ga 2)) (i + 1)"
    if a: "i \<le> func_end" "i < length lines" "re_match GUI_DATA_ASSIGN_RE (lines ! i) = Some ga"
    for w
  proof -
    from a(3) have s: "sgd_step lines func_end w i = Some ([], Some (grp ga 2), i + 1)"
      by (simp add: sgd_step_assign)
    from a have "sgd_loop lines func_end w i
        = map_option ((@) []) (sgd_loop lines func_end (Some (grp ga 2)) (i + 1))"
      by (intro sgd_loop_step s) simp_all
    then show ?thesis by (cases "sgd_loop lines func_end (Some (grp ga 2)) (i + 1)") simp_all
  qed
  have 1: "sgd_step lines func_end v i = Some ([], Some (grp ga 2), i + 1)
      \<and> sgd_loop lines func_end v i = sgd_loop lines func_end (Some (grp ga 2)) (i + 1)"
    if a: "i \<le> func_end \<and> i < length lines \<and> re_match GUI_DATA_ASSIGN_RE (lines ! i) = Some ga"
  proof
    from a show "sgd_step lines func_end v i = Some ([], Some (grp ga 2), i + 1)"
      by (simp add: sgd_step_assign)
    from a show "sgd_loop lines func_end v i = sgd_loop lines func_end (Some (grp ga 2)) (i + 1)"
      by (intro at) simp_all
  qed
  have 2: "strip_gui_data_in_function lines func_start func_end
        = map_option ((@) (slice lines func_start i))
            (sgd_loop lines func_end (Some (grp ga 2)) (i + 1))"
    if a: "func_start \<le> i \<and> i \<le> func_end \<and> i < length lines
        \<and> re_match GUI_DATA_ASSIGN_RE (lines ! i) = Some ga
        \<and> (\<forall>k\<in>set [func_start..<i].
              sgd_step lines func_end None k = Some ([lines ! k], None, k + 1))"
  proof -
    from a have "sgd_loop lines func_end None func_start
        = map_option ((@) (slice lines func_start i)) (sgd_loop lines func_end None i)"
      by (intro sgd_loop_copied_prefix) simp_all
    moreover from a have "sgd_loop lines func_end None i
        = sgd_loop lines func_end (Some (grp ga 2)) (i + 1)"
      by (intro at) simp_all
    ultimately show ?thesis by (simp add: strip_gui_data_in_function_def)
  qed
  have 3: "\<forall>l\<in>set (pass6 output_lines). \<not> is_gui_data_decl_line l"
    using pass6_no_decl by blast
  have 4: "\<forall>l\<in>set final. \<not> is_gui_data_decl_line l"
    if run: "strip_iop_lines src = Some (final, R)"
  proof
    fix l assume l: "l \<in> set final"
    from strip_iop_lines_SomeD[OF run] obtain rewritten T where
      "final = pass7 (pass6 (fst (pass5 (pass4b rewritten) T))) 0" by blast
    with l set_pass7 have "l \<in> set (pass6 (fst (pass5 (pass4b rewritten) T)))" by blast
    then show "\<not> is_gui_data_decl_line l" by (rule pass6_no_decl)
  qed
  from impI[OF 1] impI[OF 2] 3 impI[OF 4] show ?thesis by (intro conjI)
qed

text \<open>A binding of type \<^verbatim>\<open>void *\<close> as the first statement of a function: Pass 6
  would leave the line, the rewriter deletes it. And a binding of the GUI-data
  type, which both delete.\<close>

definition void_top_lines :: "string list" where
  "void_top_lines = map (\<lambda>l. l @ [NL])
     [''void process(void)'', ''{'', ''  void *h = self->gui_data;'', ''  y();'', ''}'']"

definition binding_lines :: "string list" where
  "binding_lines = map (\<lambda>l. l @ [NL])
     [''void process(void)'', ''{'', ''  dt_iop_x_gui_data_t *g = (dt_iop_x_gui_data_t *)self->gui_data;'',
      ''  y();'', ''}'']"

definition binding_final :: "string list" where
  "binding_final = map (\<lambda>l. l @ [NL]) [''void process(void)'', ''{'', ''  y();'', ''}'']"

lemma void_top_match:
  "map_option (\<lambda>ms. grp ms 2) (re_match GUI_DATA_ASSIGN_RE (void_top_lines ! 2)) = Some ''h''"
  by code_simp

lemma void_top_prefix:
  "\<forall>k\<in>set [0..<2]. sgd_step void_top_lines 4 None k = Some ([void_top_lines ! k], None, k + 1)"
  by code_simp

lemma void_top_rest: "sgd_loop void_top_lines 4 (Some ''h'') 3 = Some (drop 3 void_top_lines)"
  by code_simp

lemma void_top_pass6: "pass6 void_top_lines = void_top_lines"
  by code_simp

lemma void_top_run: "strip_iop_lines void_top_lines = Some (binding_final, {})"
  by code_simp

lemma binding_match:
  "map_option (\<lambda>ms. grp ms 2) (re_match GUI_DATA_ASSIGN_RE (binding_lines ! 2)) = Some ''g''"
  by code_simp

lemma binding_rest: "sgd_loop binding_lines 4 (Some ''g'') 3 = Some (drop 3 binding_lines)"
  by code_simp

lemma binding_run: "strip_iop_lines binding_lines = Some (binding_final, {})"
  by code_simp

theorem binding_line_deleted_witness:
  "map_option (\<lambda>ms. grp ms 2) (re_match GUI_DATA_ASSIGN_RE (void_top_lines ! 2)) = Some ''h''
   \<and> pass6 void_top_lines = void_top_lines
   \<and> strip_gui_data_in_function void_top_lines 0 4 = Some binding_final
   \<and> strip_iop_lines void_top_lines = Some (binding_final, {})
   \<and> map_option (\<lambda>ms. grp ms 2) (re_match GUI_DATA_ASSIGN_RE (binding_lines ! 2)) = Some ''g''
   \<and> sgd_loop binding_lines 4 None 2 = Some (drop 3 binding_lines)
   \<and> strip_iop_lines binding_lines = Some (binding_final, {})
   \<and> \<not> is_gui_data_decl_line (binding_final ! 2)"
proof -
  from void_top_match obtain ha where
    ha: "re_match GUI_DATA_ASSIGN_RE (void_top_lines ! 2) = Some ha" and h: "grp ha 2 = ''h''"
    by (cases "re_match GUI_DATA_ASSIGN_RE (void_top_lines ! 2)") auto
  note u = binding_line_deleted[where lines = void_top_lines and i = 2 and func_end = 4
      and func_start = 0 and ga = ha]
  have preu: "(0::nat) \<le> 2 \<and> (2::nat) \<le> 4 \<and> 2 < length void_top_lines
      \<and> re_match GUI_DATA_ASSIGN_RE (void_top_lines ! 2) = Some ha
      \<and> (\<forall>k\<in>set [0..<2].
            sgd_step void_top_lines 4 None k = Some ([void_top_lines ! k], None, k + 1))"
    using ha void_top_prefix by (simp add: void_top_lines_def)
  note fn = u[THEN conjunct2, THEN conjunct1, THEN mp, OF preu]
  have sl: "slice void_top_lines 0 2 @ drop 3 void_top_lines = binding_final"
    by (simp add: slice_def void_top_lines_def binding_final_def)
  from fn have "strip_gui_data_in_function void_top_lines 0 4
      = map_option ((@) (slice void_top_lines 0 2)) (sgd_loop void_top_lines 4 (Some ''h'') 3)"
    by (simp add: h)
  also have "\<dots> = Some (slice void_top_lines 0 2 @ drop 3 void_top_lines)"
    by (simp add: void_top_rest)
  finally have 0: "strip_gui_data_in_function void_top_lines 0 4 = Some binding_final"
    by (simp add: sl)
  from binding_match obtain ga where
    ga: "re_match GUI_DATA_ASSIGN_RE (binding_lines ! 2) = Some ga" and g: "grp ga 2 = ''g''"
    by (cases "re_match GUI_DATA_ASSIGN_RE (binding_lines ! 2)") auto
  note t = binding_line_deleted[where lines = binding_lines and i = 2 and func_end = 4 and ga = ga
      and v = None and src = binding_lines and final = binding_final and R = "{}"]
  have pre: "(2::nat) \<le> 4 \<and> 2 < length binding_lines
      \<and> re_match GUI_DATA_ASSIGN_RE (binding_lines ! 2) = Some ga"
    using ga by (simp add: binding_lines_def)
  note step = t[THEN conjunct1, THEN mp, OF pre, THEN conjunct2]
  have 1: "sgd_loop binding_lines 4 None 2 = Some (drop 3 binding_lines)"
    unfolding step g using binding_rest by simp
  note all = t[THEN conjunct2, THEN conjunct2, THEN conjunct2, THEN mp, OF binding_run]
  have "binding_final ! 2 \<in> set binding_final" by (simp add: binding_final_def)
  with all have 2: "\<not> is_gui_data_decl_line (binding_final ! 2)" by blast
  from void_top_match void_top_pass6 0 void_top_run binding_match 1 binding_run 2
  show ?thesis by (intro conjI)
qed

end
